theory Spec2Isabelle
  imports Complex_Main
begin

section \<open>JavaScript values\<close>

text \<open>
  The workflow engine is TypeScript; at run time its inputs are JavaScript values.
  A number is a finite value, \<open>NaN\<close> or an infinity. An \<open>Error\<close> object is
  \<open>VError msg\<close>; \<open>VNonErrorThrow v\<close> is the object built by
  \<^verbatim>\<open>new Error(`Non error throw: ${String(v)}`)\<close> in \<open>Node.run\<close>, with the
  thrown value kept instead of its string form.
\<close>

datatype jsnum = Finite real | NaN | PosInf | NegInf

datatype jsval =
    VUndefined
  | VNull
  | VBool bool
  | VNum jsnum
  | VStr string
  | VObj "(string \<times> jsval) list"
  | VError string
  | VNonErrorThrow jsval

text \<open>A value that may also be a function; \<open>'f\<close> is the model of the function.\<close>

datatype 'f js = Val jsval | Fun 'f

text \<open>A call either throws a value (\<open>Inl\<close>) or returns (\<open>Inr\<close>).\<close>

type_synonym 'a outcome = "jsval + 'a"

fun truthy :: "jsval \<Rightarrow> bool" where
  "truthy VUndefined = False"
| "truthy VNull = False"
| "truthy (VBool b) = b"
| "truthy (VNum (Finite r)) = (r \<noteq> 0)"
| "truthy (VNum NaN) = False"
| "truthy (VNum PosInf) = True"
| "truthy (VNum NegInf) = True"
| "truthy (VStr s) = (s \<noteq> [])"
| "truthy (VObj kvs) = True"
| "truthy (VError m) = True"
| "truthy (VNonErrorThrow v) = True"

fun truthy_js :: "'f js \<Rightarrow> bool" where
  "truthy_js (Val v) = truthy v"
| "truthy_js (Fun f) = True"

fun is_function :: "'f js \<Rightarrow> bool" where
  "is_function (Val v) = False"
| "is_function (Fun f) = True"

text \<open>\<^verbatim>\<open>typeof v === "number"\<close>, \<^verbatim>\<open>typeof v === "string"\<close>, \<^verbatim>\<open>v instanceof Error\<close>.\<close>

fun is_number :: "jsval \<Rightarrow> bool" where
  "is_number (VNum n) = True"
| "is_number v = False"

fun is_string :: "jsval \<Rightarrow> bool" where
  "is_string (VStr s) = True"
| "is_string v = False"

fun instanceof_Error :: "jsval \<Rightarrow> bool" where
  "instanceof_Error (VError m) = True"
| "instanceof_Error (VNonErrorThrow v) = True"
| "instanceof_Error v = False"

text \<open>
  Whether a value has a string form, as a template literal needs. An object whose own
  \<open>toString\<close> is not a function has none (no value of this model is a function, and the
  inherited \<open>valueOf\<close> gives the object back): printing it throws a \<open>TypeError\<close>.
\<close>

fun has_string_form :: "jsval \<Rightarrow> bool" where
  "has_string_form (VObj kvs) = (''toString'' \<notin> fst ` set kvs)"
| "has_string_form v = True"

definition type_error :: jsval where
  "type_error = VError ''Cannot convert object to primitive value''"

text \<open>\<^verbatim>\<open>n < 0\<close> and \<^verbatim>\<open>Number.isInteger(n)\<close> on numbers: every comparison with
  \<open>NaN\<close> is false, and only finite numbers are integers.\<close>

fun num_lt_zero :: "jsnum \<Rightarrow> bool" where
  "num_lt_zero (Finite r) = (r < 0)"
| "num_lt_zero NaN = False"
| "num_lt_zero PosInf = False"
| "num_lt_zero NegInf = True"

fun isInteger :: "jsnum \<Rightarrow> bool" where
  "isInteger (Finite r) = (r = of_int \<lfloor>r\<rfloor>)"
| "isInteger n = False"

fun lt_zero :: "jsval \<Rightarrow> bool" where
  "lt_zero (VNum n) = num_lt_zero n"
| "lt_zero v = False"

fun Number_isInteger :: "jsval \<Rightarrow> bool" where
  "Number_isInteger (VNum n) = isInteger n"
| "Number_isInteger v = False"

section \<open>The execution context\<close>

text \<open>
  A context snapshot is a frozen object: its keys in insertion order with their values.
  \<open>spread obj upd\<close> is \<^verbatim>\<open>{ ...obj, ...upd }\<close>: a key of \<open>upd\<close> that \<open>obj\<close> has keeps
  its place and takes the new value, a new key goes to the end.
\<close>

type_synonym ctx = "(string \<times> jsval) list"

fun set_key :: "(string \<times> 'v) list \<Rightarrow> string \<Rightarrow> 'v \<Rightarrow> (string \<times> 'v) list" where
  "set_key [] k v = [(k, v)]"
| "set_key ((k', v') # kvs) k v =
     (if k' = k then (k, v) # kvs else (k', v') # set_key kvs k v)"

fun spread :: "ctx \<Rightarrow> ctx \<Rightarrow> ctx" where
  "spread obj [] = obj"
| "spread obj ((k, v) # upd) = spread (set_key obj k v) upd"

definition has_key :: "ctx \<Rightarrow> string \<Rightarrow> bool" where
  "has_key c k = (k \<in> fst ` set c)"

text \<open>\<open>Context.reset\<close>: a seed that is neither \<open>undefined\<close> nor \<open>null\<close> is stored under
  \<open>initial\<close>; otherwise \<open>initial\<close> is \<open>undefined\<close>.\<close>

definition reset :: "jsval \<Rightarrow> ctx" where
  "reset initialValue =
     (if initialValue \<noteq> VUndefined \<and> initialValue \<noteq> VNull
      then [(''initial'', initialValue)]
      else [(''initial'', VUndefined)])"

text \<open>The body of the closure that \<open>Context.update\<close> puts on the update queue.\<close>

definition apply_update :: "ctx \<Rightarrow> ctx \<Rightarrow> ctx" where
  "apply_update obj updateValue = spread obj updateValue"

section \<open>Errors of the builder and the runner\<close>

datatype error =
    MaxRetriesInvalid
  | RetryDelayInvalid
  | BothContextOptions
  | ContextValueIsFunction
  | ContextFactoryNotFunction
  | ReservedId string
  | AlreadyExists string
  | DependencyNotString
  | SelfDependency string
  | DependencyNotFound string string
  | NoNodesAdded
  | HookNotFunction
  | CircularDependency string
  | NoNodesToRun
  | NodeNotFound string
  | NotAFunction

section \<open>Node\<close>

datatype NodeStatus = Pending | Running | Completed | Failed | Skipped

record RetryPolicy =
  maxRetries :: jsval
  retryDelayMs :: jsval

record NodeError =
  err_id :: string
  err_error :: jsval

datatype event_status = EvCompleted | EvFailed

record NodeCompletionEvent =
  ev_nodeId :: string
  ev_status :: event_status
  ev_result :: "jsval option"
  ev_error :: "NodeError option"
  ev_context :: ctx

datatype enabled_option =
    EnabledUndefined
  | EnabledBool bool
  | EnabledFn "ctx \<Rightarrow> bool outcome"

text \<open>
  \<open>NodeOptions\<close>. The work function is called once per attempt, so its model takes the
  attempt number as well as the context it was given.
\<close>

record NodeOptions =
  opt_id :: string
  dependencies :: "jsval list option"
  enabled :: enabled_option
  retryPolicy :: "RetryPolicy option"
  execute :: "nat \<Rightarrow> ctx \<Rightarrow> jsval outcome"
  errorHandler :: "(jsval \<Rightarrow> ctx \<Rightarrow> unit outcome) option"
  onCompleted :: "(NodeCompletionEvent \<Rightarrow> unit outcome) option"

record Node =
  options :: NodeOptions
  node_retryPolicy :: RetryPolicy
  status :: NodeStatus

definition validateRetryPolicy :: "RetryPolicy \<Rightarrow> error + unit" where
  "validateRetryPolicy p =
     (if \<not> is_number (maxRetries p) \<or> lt_zero (maxRetries p)
         \<or> \<not> Number_isInteger (maxRetries p)
      then Inl MaxRetriesInvalid
      else if \<not> is_number (retryDelayMs p) \<or> lt_zero (retryDelayMs p)
      then Inl RetryDelayInvalid
      else Inr ())"

definition default_policy :: RetryPolicy where
  "default_policy = \<lparr>maxRetries = VNum (Finite 0), retryDelayMs = VNum (Finite 0)\<rparr>"

text \<open>The constructor of \<open>Node\<close>.\<close>

definition new_Node :: "NodeOptions \<Rightarrow> error + Node" where
  "new_Node opts =
     (case retryPolicy opts of
        Some p \<Rightarrow>
          (case validateRetryPolicy p of
             Inl e \<Rightarrow> Inl e
           | Inr u \<Rightarrow> Inr \<lparr>options = opts, node_retryPolicy = p, status = Pending\<rparr>)
      | None \<Rightarrow> Inr \<lparr>options = opts, node_retryPolicy = default_policy, status = Pending\<rparr>)"

definition node_id :: "Node \<Rightarrow> string" where
  "node_id n = opt_id (options n)"

text \<open>\<^verbatim>\<open>dep in ctx\<close> for a dependency id.\<close>

fun dep_in :: "jsval \<Rightarrow> ctx \<Rightarrow> bool" where
  "dep_in (VStr d) c = has_key c d"
| "dep_in v c = False"

text \<open>The method \<open>isEnabled(ctx?, skipCallbackIfMissingDeps = false)\<close>.\<close>

definition isEnabled :: "Node \<Rightarrow> ctx option \<Rightarrow> bool \<Rightarrow> bool outcome" where
  "isEnabled n ctxo skipCallbackIfMissingDeps =
     (case enabled (options n) of
        EnabledUndefined \<Rightarrow> Inr True
      | EnabledBool b \<Rightarrow> Inr b
      | EnabledFn f \<Rightarrow>
          (case ctxo of
             None \<Rightarrow> Inl (VError ''Context is required to evaluate enabled function'')
           | Some c \<Rightarrow>
               (case dependencies (options n) of
                  Some deps \<Rightarrow>
                    if skipCallbackIfMissingDeps \<and> (\<exists>dep \<in> set deps. \<not> dep_in dep c)
                    then Inr True else f c
                | None \<Rightarrow> f c)))"

text \<open>
  What a call of \<open>run\<close> does besides returning: the calls of the work function (with the
  attempt number), the call of the error hook (with whether the hook itself threw) and
  the waits between attempts.
\<close>

datatype effect =
    CallExecute nat
  | CallErrorHandler jsval bool
  | Wait jsval

text \<open>
  The number of retries of a node. The constructor has validated the policy of every
  node, so \<open>maxRetries\<close> is a non-negative integer.
\<close>

fun retries_of :: "jsval \<Rightarrow> nat" where
  "retries_of (VNum (Finite r)) = nat \<lfloor>r\<rfloor>"
| "retries_of v = 0"

text \<open>
  The counter \<open>attempt\<close> and the bound \<^verbatim>\<open>maxRetries + 1\<close> of the loop are doubles. Adding 1
  to an integer is exact below \<open>2^53\<close>. From \<open>2^53\<close> to \<open>2^54\<close> the doubles are the even
  integers, and the sum, half way between two of them, is rounded to the one whose
  significand is even; from \<open>2^54\<close> on the sum is rounded back to the integer itself.
  So the counter stops at \<open>2^53\<close>.
\<close>

definition double_succ :: "nat \<Rightarrow> nat" where
  "double_succ x =
     (if x < 2 ^ 53 then x + 1
      else if x < 2 ^ 54 \<and> odd (x div 2) then x + 2
      else x)"

definition error_of :: "jsval \<Rightarrow> jsval" where
  "error_of err = (if instanceof_Error err then err else VNonErrorThrow err)"

definition handler_effects :: "Node \<Rightarrow> jsval \<Rightarrow> ctx \<Rightarrow> effect list" where
  "handler_effects n error c =
     (case errorHandler (options n) of
        Some h \<Rightarrow> [CallErrorHandler error (isl (h error c))]
      | None \<Rightarrow> [])"

text \<open>
  The error hook threw a value that the report of its failure
  (\<^verbatim>\<open>`Error in node error handler for ${id}: ${error}`\<close>) cannot print.
\<close>

definition handler_unprintable :: "Node \<Rightarrow> jsval \<Rightarrow> ctx \<Rightarrow> bool" where
  "handler_unprintable n error c =
     (case errorHandler (options n) of
        Some h \<Rightarrow> (case h error c of Inl thrown \<Rightarrow> \<not> has_string_form thrown | Inr u \<Rightarrow> False)
      | None \<Rightarrow> False)"

text \<open>
  The catch block of \<open>run\<close> after the last attempt, call number \<open>calls\<close>, threw \<open>err\<close>.
  Its first statement prints \<open>err\<close> in a template literal: for a value without a string
  form that throws a \<open>TypeError\<close>, which leaves \<open>run\<close> before the hook is called and
  with the status still \<open>running\<close>. So does the report of a failure of the hook.
\<close>

definition last_attempt_failed :: "Node \<Rightarrow> ctx \<Rightarrow> nat \<Rightarrow> jsval \<Rightarrow> Node \<times> effect list \<times> jsval outcome" where
  "last_attempt_failed n c calls err =
     (if \<not> has_string_form err then
        (n\<lparr>status := Running\<rparr>, [CallExecute calls], Inl type_error)
      else if handler_unprintable n (error_of err) c then
        (n\<lparr>status := Running\<rparr>, CallExecute calls # handler_effects n (error_of err) c,
         Inl type_error)
      else
        (n\<lparr>status := Failed\<rparr>, CallExecute calls # handler_effects n (error_of err) c,
         Inl (error_of err)))"

text \<open>
  The retry loop of \<open>run\<close>, at the head of the loop with the counter at \<open>attempt\<close>, after
  \<open>calls\<close> calls of the work function. It gives the node with its new status, the
  effects in order, and what \<open>run\<close> returns or throws. Each attempt sets the status to
  \<open>running\<close> first; a failed attempt that is not the last leaves it so, and its report
  prints the thrown value like the one of the last attempt. With \<open>maxRetries\<close> above
  \<open>2^53\<close> the counter never reaches it and the loop has no end unless an attempt
  succeeds: then \<open>run\<close> does not settle, which is the value \<open>None\<close>.
\<close>

partial_function (option) run_loop ::
    "Node \<Rightarrow> ctx \<Rightarrow> nat \<Rightarrow> nat \<Rightarrow> (Node \<times> effect list \<times> jsval outcome) option" where
  "run_loop n c calls attempt =
     (if attempt < double_succ (retries_of (maxRetries (node_retryPolicy n))) then
        (case execute (options n) calls c of
           Inr result \<Rightarrow> Some (n\<lparr>status := Completed\<rparr>, [CallExecute calls], Inr result)
         | Inl err \<Rightarrow>
             if attempt = retries_of (maxRetries (node_retryPolicy n)) then
               Some (last_attempt_failed n c calls err)
             else if \<not> has_string_form err then
               Some (n\<lparr>status := Running\<rparr>, [CallExecute calls], Inl type_error)
             else
               Option.bind
                 (run_loop (n\<lparr>status := Running\<rparr>) c (calls + 1) (double_succ attempt))
                 (\<lambda>res. Some (fst res,
                         CallExecute calls # Wait (retryDelayMs (node_retryPolicy n)) # fst (snd res),
                         snd (snd res))))
      else Some (n, [], Inl (VError ''Unexpected end of run method'')))"

text \<open>The method \<open>run(ctx)\<close>.\<close>

definition run :: "Node \<Rightarrow> ctx \<Rightarrow> (Node \<times> effect list \<times> jsval outcome) option" where
  "run n c =
     (case isEnabled n (Some c) False of
        Inl e \<Rightarrow> Some (n, [], Inl e)
      | Inr False \<Rightarrow> Some (n\<lparr>status := Skipped\<rparr>, [], Inr VNull)
      | Inr True \<Rightarrow> run_loop n c 0 0)"

section \<open>The dependency index\<close>

text \<open>
  \<open>DependencyMap\<close>: node id to the list of its dependency ids, in insertion order.
  \<open>add\<close> creates the list when the key has none and pushes; \<open>get\<close> returns a copy of
  the list, or the empty list for an unknown key.
\<close>

type_synonym DependencyMap = "(string \<times> string list) list"

definition dm_add :: "DependencyMap \<Rightarrow> string \<Rightarrow> string \<Rightarrow> DependencyMap" where
  "dm_add m k v =
     (if k \<in> fst ` set m
      then map (\<lambda>(k', vs). if k' = k then (k', vs @ [v]) else (k', vs)) m
      else m @ [(k, [v])])"

definition dm_get :: "DependencyMap \<Rightarrow> string \<Rightarrow> string list" where
  "dm_get m k = (case map_of m k of None \<Rightarrow> [] | Some vs \<Rightarrow> vs)"

section \<open>The builder\<close>

text \<open>The model of a context factory is what calling it gives.\<close>

type_synonym factory = "jsval outcome"

text \<open>The model of the hook \<open>onNodesCompleted(ctx, errors)\<close>.\<close>

type_synonym completion_hook = "ctx \<Rightarrow> NodeError list option \<Rightarrow> unit outcome"

text \<open>The options of the constructor: a key that is absent is \<open>None\<close>.\<close>

record WorkflowOptions =
  contextValue :: "factory js option"
  contextFactory :: "factory js option"

record Workflow =
  contextValueOrFactory :: "factory js"
  nodes :: "(string \<times> Node) list"
  nodeDependencies :: DependencyMap
  topologicalOrder :: "string list"

definition empty_Workflow :: Workflow where
  "empty_Workflow =
     \<lparr>contextValueOrFactory = Val VUndefined, nodes = [], nodeDependencies = [],
      topologicalOrder = []\<rparr>"

definition new_Workflow :: "WorkflowOptions option \<Rightarrow> error + Workflow" where
  "new_Workflow opts =
     (case opts of
        None \<Rightarrow> Inr empty_Workflow
      | Some os \<Rightarrow>
          (case (contextValue os, contextFactory os) of
             (Some v, Some f) \<Rightarrow> Inl BothContextOptions
           | (Some v, None) \<Rightarrow>
               if v \<noteq> Val VUndefined then
                 if is_function v then Inl ContextValueIsFunction
                 else Inr (empty_Workflow\<lparr>contextValueOrFactory := v\<rparr>)
               else Inr empty_Workflow
           | (None, Some f) \<Rightarrow>
               if \<not> is_function f then Inl ContextFactoryNotFunction
               else Inr (empty_Workflow\<lparr>contextValueOrFactory := f\<rparr>)
           | (None, None) \<Rightarrow> Inr empty_Workflow))"

definition has_node :: "(string \<times> Node) list \<Rightarrow> string \<Rightarrow> bool" where
  "has_node ns k = (k \<in> fst ` set ns)"

text \<open>
  The loop of \<open>addNode\<close> over the listed dependencies. It returns the error thrown, if
  any, and the builder as the loop leaves it: an edge recorded before a later dependency
  is refused stays in the dependency index.
\<close>

fun add_dependencies :: "string \<Rightarrow> jsval list \<Rightarrow> Workflow \<Rightarrow> error option \<times> Workflow" where
  "add_dependencies nodeId [] w = (None, w)"
| "add_dependencies nodeId (depId # rest) w =
     (case depId of
        VStr d \<Rightarrow>
          if d = nodeId then (Some (SelfDependency nodeId), w)
          else if \<not> has_node (nodes w) d then (Some (DependencyNotFound d nodeId), w)
          else add_dependencies nodeId rest
                 (w\<lparr>nodeDependencies := dm_add (nodeDependencies w) nodeId d\<rparr>)
      | _ \<Rightarrow> (Some DependencyNotString, w))"

definition listed_dependencies :: "NodeOptions \<Rightarrow> jsval list" where
  "listed_dependencies opts = (case dependencies opts of None \<Rightarrow> [] | Some ds \<Rightarrow> ds)"

definition addNode :: "NodeOptions \<Rightarrow> Workflow \<Rightarrow> error option \<times> Workflow" where
  "addNode opts w =
     (if opt_id opts = ''initial'' then (Some (ReservedId (opt_id opts)), w)
      else if has_node (nodes w) (opt_id opts) then (Some (AlreadyExists (opt_id opts)), w)
      else
        (case new_Node opts of
           Inl e \<Rightarrow> (Some e, w)
         | Inr node \<Rightarrow>
             (case add_dependencies (opt_id opts) (listed_dependencies opts) w of
                (Some e, w') \<Rightarrow> (Some e, w')
              | (None, w') \<Rightarrow> (None, w'\<lparr>nodes := nodes w' @ [(opt_id opts, node)]\<rparr>))))"

definition size_of :: "Workflow \<Rightarrow> nat" where
  "size_of w = length (nodes w)"

subsection \<open>Topological sort\<close>

text \<open>Every id the dependency index mentions.\<close>

definition dm_ids :: "DependencyMap \<Rightarrow> string set" where
  "dm_ids m = fst ` set m \<union> (\<Union>(k, vs) \<in> set m. set vs)"

lemma dm_get_outside: "k \<notin> dm_ids m \<Longrightarrow> dm_get m k = []"
  by (auto simp: dm_ids_def dm_get_def map_of_eq_None_iff[THEN iffD2] split: option.splits
      dest: map_of_SomeD)

lemma finite_dm_ids: "finite (dm_ids m)"
  by (auto simp: dm_ids_def)

text \<open>
  The closure \<open>visit\<close> of \<open>#topologicalSort\<close> and its loop over the dependencies of a
  node. \<open>temp\<close> holds the ids being visited: the closure adds \<open>nodeId\<close> before its loop
  and deletes it after, so the loop runs with \<open>nodeId\<close> added and the caller goes on with
  the set it had. The state that is threaded is \<open>visited\<close> and the order list.
\<close>

function visit ::
    "DependencyMap \<Rightarrow> string list \<Rightarrow> string \<Rightarrow> string list \<times> string list
      \<Rightarrow> error + string list \<times> string list"
  and visit_deps ::
    "DependencyMap \<Rightarrow> string list \<Rightarrow> string list \<Rightarrow> string list \<times> string list
      \<Rightarrow> error + string list \<times> string list"
where
  "visit deps temp nodeId (visited, order) =
     (if nodeId \<in> set temp then Inl (CircularDependency nodeId)
      else if nodeId \<notin> set visited then
        (case visit_deps deps (nodeId # temp) (dm_get deps nodeId) (visited, order) of
           Inl e \<Rightarrow> Inl e
         | Inr (visited', order') \<Rightarrow> Inr (nodeId # visited', order' @ [nodeId]))
      else Inr (visited, order))"
| "visit_deps deps temp [] s = Inr s"
| "visit_deps deps temp (depId # rest) s =
     (case visit deps temp depId s of
        Inl e \<Rightarrow> Inl e
      | Inr s' \<Rightarrow> visit_deps deps temp rest s')"
  by pat_completeness auto
termination
proof (relation "inv_image (less_than <*lex*> less_than)
    (\<lambda>x. case x of
       Inl (deps, temp, nodeId, s) \<Rightarrow> (card (dm_ids deps - set temp), 1)
     | Inr (deps, temp, ds, s) \<Rightarrow> (card (dm_ids deps - set temp), 2 * length ds))",
    goal_cases)
  case 1
  show ?case by (intro wf_inv_image wf_lex_prod wf_less_than)
next
  case (2 deps temp nodeId visited order)
  show ?case
  proof (cases "nodeId \<in> dm_ids deps")
    case True
    with 2 have "card (dm_ids deps - set (nodeId # temp)) < card (dm_ids deps - set temp)"
      by (intro psubset_card_mono) (auto simp: finite_dm_ids)
    then show ?thesis by simp
  next
    case False
    then have "dm_ids deps - set (nodeId # temp) = dm_ids deps - set temp" by auto
    with False show ?thesis by (simp add: dm_get_outside)
  qed
next
  case (3 deps temp depId rest s)
  show ?case by simp
next
  case (4 deps temp depId rest s s')
  show ?case by simp
qed

declare visit.simps [simp del]

text \<open>The loop of \<open>#topologicalSort\<close> over the keys of the node map.\<close>

fun sort_loop ::
    "DependencyMap \<Rightarrow> string list \<Rightarrow> string list \<times> string list
      \<Rightarrow> error + string list \<times> string list" where
  "sort_loop deps [] s = Inr s"
| "sort_loop deps (nodeId # rest) (visited, order) =
     (if nodeId \<notin> set visited then
        (case visit deps [] nodeId (visited, order) of
           Inl e \<Rightarrow> Inl e
         | Inr s' \<Rightarrow> sort_loop deps rest s')
      else sort_loop deps rest (visited, order))"

text \<open>\<open>#topologicalSort\<close> pushes onto the builder's order list, which it never empties.\<close>

definition topologicalSort :: "Workflow \<Rightarrow> error + Workflow" where
  "topologicalSort w =
     (case sort_loop (nodeDependencies w) (map fst (nodes w)) ([], topologicalOrder w) of
        Inl e \<Rightarrow> Inl e
      | Inr (visited, order) \<Rightarrow> Inr (w\<lparr>topologicalOrder := order\<rparr>))"

section \<open>The runner\<close>

record WorkflowRunner =
  r_contextValueOrFactory :: "factory js"
  r_topologicalOrder :: "string list"
  r_nodes :: "(string \<times> Node) list"
  r_nodeDependencies :: DependencyMap
  r_onNodesCompleted :: "completion_hook js"

definition build :: "completion_hook js \<Rightarrow> Workflow \<Rightarrow> error + WorkflowRunner" where
  "build onNodesCompleted w =
     (if size_of w = 0 then Inl NoNodesAdded
      else if truthy_js onNodesCompleted \<and> \<not> is_function onNodesCompleted
      then Inl HookNotFunction
      else
        (case topologicalSort w of
           Inl e \<Rightarrow> Inl e
         | Inr w' \<Rightarrow>
             Inr \<lparr>r_contextValueOrFactory = contextValueOrFactory w',
                  r_topologicalOrder = topologicalOrder w',
                  r_nodes = nodes w',
                  r_nodeDependencies = nodeDependencies w',
                  r_onNodesCompleted = onNodesCompleted\<rparr>))"

subsection \<open>The fields of a runner\<close>

text \<open>
  A runner keeps its context, its error list and its node objects (each with its
  status) in fields. A call of \<open>trigger\<close> reads and writes them where they are: it does
  not copy them, so calls of \<open>trigger\<close> on one runner that overlap share them, and a
  later call finds the statuses that an earlier one left. The constructor makes the
  context \<open>{initial: undefined}\<close> and the error list empty.
\<close>

record fields =
  fl_context :: ctx
  fl_errors :: "NodeError list"
  fl_nodes :: "(string \<times> Node) list"

definition new_fields :: "WorkflowRunner \<Rightarrow> fields" where
  "new_fields r = \<lparr>fl_context = reset VUndefined, fl_errors = [], fl_nodes = r_nodes r\<rparr>"

subsection \<open>One call of \<open>trigger\<close>\<close>

text \<open>
  \<open>#run\<close> is asynchronous: the node executions it starts and its own loop are
  interleaved at their \<open>await\<close>s. The model is a transition system. Its state holds
  the fields of the runner and the variables of one call of \<open>#run\<close>; an event is the
  piece of code that runs between two suspension points. Which event comes next is not
  decided by the runner (it depends on how long the work functions and hooks take), so
  a run is given by a list of events, and a property of every run is proved for every
  list.

  A set or map of the code is the list of its elements or entries in insertion order.
\<close>

definition set_add :: "'a \<Rightarrow> 'a list \<Rightarrow> 'a list" where
  "set_add x xs = (if x \<in> set xs then xs else xs @ [x])"

definition new_Set :: "'a list \<Rightarrow> 'a list" where
  "new_Set xs = foldl (\<lambda>acc x. set_add x acc) [] xs"

definition del_key :: "string \<Rightarrow> (string \<times> 'v) list \<Rightarrow> (string \<times> 'v) list" where
  "del_key k kvs = filter (\<lambda>kv. fst kv \<noteq> k) kvs"

text \<open>
  The scheduler reads \<^verbatim>\<open>node.isEnabled\<close> without calling it. \<open>isEnabled\<close> is a method of
  \<open>Node\<close>, so the expression is the method itself, and a function is truthy.
\<close>

definition isEnabled_property :: "Node \<Rightarrow> bool" where
  "isEnabled_property n = True"

text \<open>
  Where an execution \<open>runNode(nodeId)\<close> stands:
  \<open>Started c\<close>: \<open>node.run(c)\<close> was called with the context \<open>c\<close> and has not settled;
  \<open>Updating v\<close>: \<open>run\<close> returned \<open>v\<close> and the update of the context is queued;
  \<open>Updated v\<close>: the update is applied and \<open>runNode\<close> has not resumed;
  \<open>Thrown e\<close>: \<open>run\<close> threw \<open>e\<close> and the catch block has not run;
  \<open>Hooking\<close>: the node is marked completed, its hook was called and has not settled.
\<close>

datatype phase = Started ctx | Updating jsval | Updated jsval | Thrown jsval | Hooking

datatype rejection = RejError error | RejThrown jsval

text \<open>
  Where \<open>#run\<close> itself stands: at the head of its loop, waiting in \<open>Promise.race\<close>,
  returned with the final context, or thrown (\<open>trigger\<close> then rejects).
\<close>

datatype main_state = Looping | Waiting | Returned ctx | Rejected rejection

record run_state =
  rs_context :: ctx
  rs_queue :: "(string \<times> jsval) list"
  rs_nodes :: "(string \<times> Node) list"
  rs_completed :: "string list"
  rs_running :: "(string \<times> phase) list"
  rs_readyNodes :: "string list"
  rs_errors :: "NodeError list"
  rs_main :: main_state
  rs_runs :: "(string \<times> ctx \<times> effect list \<times> jsval outcome) list"
  rs_applied :: ctx
  rs_events :: "NodeCompletionEvent list"
  rs_hook_calls :: "(ctx \<times> NodeError list option) list"

text \<open>
  The last four fields are a record of what happened, not variables of the code: the
  calls of \<open>node.run\<close> that settled (node id, context given, effects, outcome), the
  updates applied to the context, the events given to the nodes' completion hooks, and
  the calls of the overall completion hook, each in order.
\<close>

text \<open>The seeding of the context at the head of \<open>#run\<close>.\<close>

definition seed_context :: "factory js \<Rightarrow> ctx \<Rightarrow> jsval + ctx" where
  "seed_context valueOrFactory c =
     (if truthy_js valueOrFactory then
        (case valueOrFactory of
           Fun f \<Rightarrow> (case f of Inl e \<Rightarrow> Inl e | Inr v \<Rightarrow> Inr (reset v))
         | Val v \<Rightarrow> Inr (reset v))
      else Inr c)"

text \<open>The state of a call whose \<open>#run\<close> threw before its loop, with the fields \<open>f\<close>.\<close>

definition rejected_state :: "fields \<Rightarrow> rejection \<Rightarrow> run_state" where
  "rejected_state f e =
     \<lparr>rs_context = fl_context f, rs_queue = [], rs_nodes = fl_nodes f, rs_completed = [],
      rs_running = [], rs_readyNodes = [], rs_errors = fl_errors f, rs_main = Rejected e,
      rs_runs = [], rs_applied = [], rs_events = [], rs_hook_calls = []\<rparr>"

text \<open>
  \<open>#run\<close> up to the head of its loop, called when the fields of the runner are \<open>f\<close>. A
  seed that is falsy leaves the context as the call finds it. The first ready nodes
  are those of the order list that have no dependency.
\<close>

definition start :: "WorkflowRunner \<Rightarrow> fields \<Rightarrow> run_state" where
  "start r f =
     (if r_topologicalOrder r = [] then rejected_state f (RejError NoNodesToRun)
      else
        (case seed_context (r_contextValueOrFactory r) (fl_context f) of
           Inl e \<Rightarrow> rejected_state f (RejThrown e)
         | Inr c \<Rightarrow>
             (case find (\<lambda>nodeId. map_of (fl_nodes f) nodeId = None) (r_topologicalOrder r) of
                Some nodeId \<Rightarrow>
                  rejected_state (f\<lparr>fl_context := c\<rparr>) (RejError (NodeNotFound nodeId))
              | None \<Rightarrow>
                  \<lparr>rs_context = c, rs_queue = [], rs_nodes = fl_nodes f, rs_completed = [],
                   rs_running = [],
                   rs_readyNodes = new_Set (filter
                     (\<lambda>nodeId. (case map_of (fl_nodes f) nodeId of
                                    None \<Rightarrow> False
                                  | Some node \<Rightarrow> isEnabled_property node)
                                \<and> dm_get (r_nodeDependencies r) nodeId = [])
                     (r_topologicalOrder r)),
                   rs_errors = fl_errors f, rs_main = Looping,
                   rs_runs = [], rs_applied = [], rs_events = [], rs_hook_calls = []\<rparr>)))"

text \<open>The readiness test of the rescan in the \<open>finally\<close> block of \<open>runNode\<close>.\<close>

definition canRun :: "DependencyMap \<Rightarrow> run_state \<Rightarrow> Node \<Rightarrow> bool" where
  "canRun deps s n =
     (isEnabled_property n \<and>
      list_all
        (\<lambda>depId. case map_of (rs_nodes s) depId of
                    None \<Rightarrow> False
                  | Some depNode \<Rightarrow>
                      depId \<in> set (rs_completed s) \<and> status depNode = Completed
                      \<and> isEnabled_property depNode)
        (dm_get deps (node_id n)))"

fun rescan :: "DependencyMap \<Rightarrow> run_state \<Rightarrow> (string \<times> Node) list \<Rightarrow> string list \<Rightarrow> string list" where
  "rescan deps s [] ready = ready"
| "rescan deps s ((i, n) # rest) ready =
     rescan deps s rest
       (if i \<notin> set (rs_completed s) \<and> i \<notin> fst ` set (rs_running s) \<and> canRun deps s n
        then set_add i ready else ready)"

text \<open>The \<open>finally\<close> block of \<open>runNode\<close>.\<close>

definition finally_block :: "DependencyMap \<Rightarrow> string \<Rightarrow> run_state \<Rightarrow> run_state" where
  "finally_block deps nodeId s =
     (let s1 = s\<lparr>rs_running := del_key nodeId (rs_running s)\<rparr>
      in s1\<lparr>rs_readyNodes := rescan deps s1 (rs_nodes s1) (rs_readyNodes s1)\<rparr>)"

text \<open>The promise of a \<open>runNode\<close> settles: a \<open>Promise.race\<close> that waits for it resolves.\<close>

definition promise_settled :: "run_state \<Rightarrow> run_state" where
  "promise_settled s = (if rs_main s = Waiting then s\<lparr>rs_main := Looping\<rparr> else s)"

text \<open>After the hook, or at once for a node that has none.\<close>

definition after_hook :: "DependencyMap \<Rightarrow> string \<Rightarrow> Node \<Rightarrow> NodeCompletionEvent \<Rightarrow> run_state \<Rightarrow> run_state" where
  "after_hook deps nodeId node ev s =
     (case onCompleted (options node) of
        Some h \<Rightarrow> s\<lparr>rs_events := rs_events s @ [ev],
                    rs_running := set_key (rs_running s) nodeId Hooking\<rparr>
      | None \<Rightarrow> promise_settled (finally_block deps nodeId s))"

text \<open>Setting the entry of a node in the node map (its status changes).\<close>

definition put_node :: "string \<Rightarrow> Node \<Rightarrow> (string \<times> Node) list \<Rightarrow> (string \<times> Node) list" where
  "put_node k n ns = map (\<lambda>kv. if fst kv = k then (k, n) else kv) ns"

text \<open>
  The events. \<open>settle\<close>: \<open>node.run\<close> settles, and on success \<open>runNode\<close> queues the update
  of the context. \<open>apply_next\<close>: the update queue applies its oldest update.
  \<open>commit\<close>: \<open>runNode\<close> resumes after its update (or enters its catch block), marks the
  node completed and calls the hook. \<open>finalize\<close>: the hook has settled and the
  \<open>finally\<close> block runs. An event that cannot happen in a state gives \<open>None\<close>.
\<close>

definition settle :: "string \<Rightarrow> run_state \<Rightarrow> run_state option" where
  "settle nodeId s =
     (case (map_of (rs_running s) nodeId, map_of (rs_nodes s) nodeId) of
        (Some (Started c), Some node) \<Rightarrow>
          (case run node c of
             None \<Rightarrow> None
           | Some (node', effs, Inr result) \<Rightarrow>
               Some (s\<lparr>rs_nodes := put_node nodeId node' (rs_nodes s),
                       rs_runs := rs_runs s @ [(nodeId, c, effs, Inr result)],
                       rs_queue := rs_queue s @ [(nodeId, result)],
                       rs_running := set_key (rs_running s) nodeId (Updating result)\<rparr>)
           | Some (node', effs, Inl err) \<Rightarrow>
               Some (s\<lparr>rs_nodes := put_node nodeId node' (rs_nodes s),
                       rs_runs := rs_runs s @ [(nodeId, c, effs, Inl err)],
                       rs_running := set_key (rs_running s) nodeId (Thrown err)\<rparr>))
      | _ \<Rightarrow> None)"

definition apply_next :: "run_state \<Rightarrow> run_state option" where
  "apply_next s =
     (case rs_queue s of
        [] \<Rightarrow> None
      | (nodeId, result) # rest \<Rightarrow>
          Some (s\<lparr>rs_context := apply_update (rs_context s) [(nodeId, result)],
                  rs_applied := rs_applied s @ [(nodeId, result)],
                  rs_queue := rest,
                  rs_running := set_key (rs_running s) nodeId (Updated result)\<rparr>))"

definition commit :: "DependencyMap \<Rightarrow> string \<Rightarrow> run_state \<Rightarrow> run_state option" where
  "commit deps nodeId s =
     (case (map_of (rs_running s) nodeId, map_of (rs_nodes s) nodeId) of
        (Some (Updated result), Some node) \<Rightarrow>
          (let s1 = s\<lparr>rs_completed := set_add nodeId (rs_completed s)\<rparr>
           in Some (after_hook deps nodeId node
                \<lparr>ev_nodeId = nodeId, ev_status = EvCompleted, ev_result = Some result,
                 ev_error = None, ev_context = rs_context s1\<rparr> s1))
      | (Some (Thrown err), Some node) \<Rightarrow>
          (let s1 = s\<lparr>rs_errors :=
                        (if instanceof_Error err
                         then rs_errors s @ [\<lparr>err_id = nodeId, err_error = err\<rparr>]
                         else rs_errors s),
                      rs_completed := set_add nodeId (rs_completed s)\<rparr>
           in Some (after_hook deps nodeId node
                \<lparr>ev_nodeId = nodeId, ev_status = EvFailed, ev_result = None,
                 ev_error = (if instanceof_Error err
                             then Some \<lparr>err_id = nodeId, err_error = err\<rparr> else None),
                 ev_context = rs_context s1\<rparr> s1))
      | _ \<Rightarrow> None)"

definition finalize :: "DependencyMap \<Rightarrow> string \<Rightarrow> run_state \<Rightarrow> run_state option" where
  "finalize deps nodeId s =
     (case map_of (rs_running s) nodeId of
        Some Hooking \<Rightarrow> Some (promise_settled (finally_block deps nodeId s))
      | _ \<Rightarrow> None)"

text \<open>The end of \<open>#run\<close>: the overall completion hook, then the return.\<close>

definition exit_run :: "completion_hook js \<Rightarrow> run_state \<Rightarrow> run_state" where
  "exit_run hook s =
     (let errs = (if rs_errors s \<noteq> [] then Some (rs_errors s) else None)
      in if truthy_js hook then
           (case hook of
              Fun f \<Rightarrow>
                (case f (rs_context s) errs of
                   Inl e \<Rightarrow> s\<lparr>rs_hook_calls := rs_hook_calls s @ [(rs_context s, errs)],
                               rs_main := Rejected (RejThrown e)\<rparr>
                 | Inr u \<Rightarrow> s\<lparr>rs_hook_calls := rs_hook_calls s @ [(rs_context s, errs)],
                               rs_main := Returned (rs_context s)\<rparr>)
            | Val v \<Rightarrow> s\<lparr>rs_main := Rejected (RejError NotAFunction)\<rparr>)
         else s\<lparr>rs_main := Returned (rs_context s)\<rparr>)"

text \<open>The loop that starts the ready nodes: each \<open>runNode\<close> calls \<open>node.run\<close> with the
  context of that moment.\<close>

fun launch :: "ctx \<Rightarrow> string list \<Rightarrow> (string \<times> phase) list \<Rightarrow> (string \<times> phase) list" where
  "launch c [] running = running"
| "launch c (nodeId # rest) running = launch c rest (set_key running nodeId (Started c))"

text \<open>
  \<open>node.run\<close> is itself asynchronous and runs at once as far as its first \<open>await\<close>: it
  tests whether the node is enabled and, when it is, sets the status to \<open>running\<close>
  and calls the work function. The rest of \<open>run\<close> is the event \<open>settle\<close> below, which for
  simplicity goes through \<open>run\<close> from its beginning on the node as the start left it:
  that gives the same result.
\<close>

definition run_begin :: "Node \<Rightarrow> ctx \<Rightarrow> Node" where
  "run_begin n c =
     (case isEnabled n (Some c) False of
        Inl e \<Rightarrow> n
      | Inr False \<Rightarrow> n\<lparr>status := Skipped\<rparr>
      | Inr True \<Rightarrow> n\<lparr>status := Running\<rparr>)"

fun launch_nodes :: "ctx \<Rightarrow> string list \<Rightarrow> (string \<times> Node) list \<Rightarrow> (string \<times> Node) list" where
  "launch_nodes c [] ns = ns"
| "launch_nodes c (nodeId # rest) ns =
     launch_nodes c rest
       (case map_of ns nodeId of
          None \<Rightarrow> ns
        | Some node \<Rightarrow> put_node nodeId (run_begin node c) ns)"

text \<open>
  One turn of the loop of \<open>#run\<close>, from its head to the next \<open>await\<close> or to the end of
  \<open>#run\<close>. A ready id that is not in the node map makes \<open>runNode\<close> throw: its promise is
  rejected, and so is the race.
\<close>

definition main_step :: "WorkflowRunner \<Rightarrow> run_state \<Rightarrow> run_state option" where
  "main_step r s =
     (if rs_main s \<noteq> Looping then None
      else if length (rs_completed s) < length (rs_nodes s) then
        (case find (\<lambda>nodeId. map_of (rs_nodes s) nodeId = None) (rs_readyNodes s) of
           Some nodeId \<Rightarrow> Some (s\<lparr>rs_main := Rejected (RejError (NodeNotFound nodeId))\<rparr>)
         | None \<Rightarrow>
             (let s1 = s\<lparr>rs_running := launch (rs_context s) (rs_readyNodes s) (rs_running s),
                         rs_nodes := launch_nodes (rs_context s) (rs_readyNodes s) (rs_nodes s),
                         rs_readyNodes := []\<rparr>
              in if rs_running s1 \<noteq> [] then Some (s1\<lparr>rs_main := Waiting\<rparr>)
                 else Some (exit_run (r_onNodesCompleted r) s1)))
      else Some (exit_run (r_onNodesCompleted r) s))"

datatype event = MainStep | Settle string | Apply | Commit string | Finalize string

definition finished :: "run_state \<Rightarrow> bool" where
  "finished s = (case rs_main s of Returned c \<Rightarrow> True | Rejected e \<Rightarrow> True | _ \<Rightarrow> False)"

text \<open>Once \<open>#run\<close> has returned or thrown, the run is over.\<close>

definition step :: "WorkflowRunner \<Rightarrow> event \<Rightarrow> run_state \<Rightarrow> run_state option" where
  "step r e s =
     (if finished s then None
      else
        (case e of
           MainStep \<Rightarrow> main_step r s
         | Settle nodeId \<Rightarrow> settle nodeId s
         | Apply \<Rightarrow> apply_next s
         | Commit nodeId \<Rightarrow> commit (r_nodeDependencies r) nodeId s
         | Finalize nodeId \<Rightarrow> finalize (r_nodeDependencies r) nodeId s))"

fun exec :: "WorkflowRunner \<Rightarrow> event list \<Rightarrow> run_state \<Rightarrow> run_state option" where
  "exec r [] s = Some s"
| "exec r (e # es) s = (case step r e s of None \<Rightarrow> None | Some s' \<Rightarrow> exec r es s')"

text \<open>
  The states that a call of \<open>trigger\<close> on the runner \<open>r\<close> reaches when it is made with
  the fields \<open>f\<close> and no other call of \<open>trigger\<close> on \<open>r\<close> runs at the same time.
\<close>

definition reaches :: "WorkflowRunner \<Rightarrow> fields \<Rightarrow> event list \<Rightarrow> run_state \<Rightarrow> bool" where
  "reaches r f es s = (exec r es (start r f) = Some s)"

text \<open>
  No call of \<open>trigger\<close> is in progress: the constructor and the \<open>finally\<close> block of every
  \<open>trigger\<close> leave the context \<open>{initial: undefined}\<close> and the error list empty.
\<close>

definition idle :: "fields \<Rightarrow> bool" where
  "idle f = (fl_context f = reset VUndefined \<and> fl_errors f = [])"

text \<open>What \<open>trigger\<close> gives once the run is over.\<close>

definition trigger_result :: "run_state \<Rightarrow> (rejection + ctx) option" where
  "trigger_result s =
     (case rs_main s of
        Returned c \<Rightarrow> Some (Inr c)
      | Rejected e \<Rightarrow> Some (Inl e)
      | _ \<Rightarrow> None)"

subsection \<open>Calls of \<open>trigger\<close> that overlap\<close>

text \<open>
  Nothing keeps \<open>trigger\<close> from being called on a runner while an earlier call has not
  settled. Each call has the variables of its own \<open>#run\<close>, and all of them use the
  fields of the runner: a call takes each step on the fields as the last step of any
  call left them. The updates of the context go through the one queue of the context
  object, so they are applied in the order in which they were queued, whichever call
  queued them. When the \<open>#run\<close> of a call has returned or thrown, the \<open>finally\<close> block
  of that \<open>trigger\<close> resets the context to \<open>{initial: undefined}\<close> and empties the error
  list, whether or not another call is still running.
\<close>

definition fields_of :: "run_state \<Rightarrow> fields" where
  "fields_of s = \<lparr>fl_context = rs_context s, fl_errors = rs_errors s, fl_nodes = rs_nodes s\<rparr>"

definition with_fields :: "fields \<Rightarrow> run_state \<Rightarrow> run_state" where
  "with_fields f s = s\<lparr>rs_context := fl_context f, rs_errors := fl_errors f, rs_nodes := fl_nodes f\<rparr>"

text \<open>
  The state of a runner with its calls of \<open>trigger\<close>, oldest first. \<open>sys_queue\<close> tells
  which call queued each update that waits in the queue of the context, oldest first;
  the update itself is in \<open>rs_queue\<close> of that call. \<open>sys_over\<close> lists the calls whose
  \<open>finally\<close> block has run.
\<close>

record system =
  sys_fields :: fields
  sys_calls :: "run_state list"
  sys_queue :: "nat list"
  sys_over :: "nat list"

definition new_system :: "WorkflowRunner \<Rightarrow> system" where
  "new_system r = \<lparr>sys_fields = new_fields r, sys_calls = [], sys_queue = [], sys_over = []\<rparr>"

text \<open>
  \<open>Trigger\<close>: \<open>trigger\<close> is called. \<open>#run\<close> runs at once as far as its first \<open>await\<close>, the
  \<^verbatim>\<open>Promise.race\<close> of the first turn of its loop. (With a context factory there is an
  \<open>await\<close> before, on what the factory returns; the model takes the factory to settle
  before anything else happens.) \<open>Of k e\<close>: the event \<open>e\<close> in the call number \<open>k\<close>.
  \<open>Finally k\<close>: the \<open>finally\<close> block of the call number \<open>k\<close>.
\<close>

datatype sys_event = Trigger | Of nat event | Finally nat

definition first_turn :: "WorkflowRunner \<Rightarrow> fields \<Rightarrow> run_state" where
  "first_turn r f = (case main_step r (start r f) of None \<Rightarrow> start r f | Some s \<Rightarrow> s)"

definition queue_after :: "nat \<Rightarrow> event \<Rightarrow> run_state \<Rightarrow> run_state \<Rightarrow> nat list \<Rightarrow> nat list" where
  "queue_after k e s s' q =
     (if e = Apply then tl q
      else if length (rs_queue s) < length (rs_queue s') then q @ [k]
      else q)"

definition sys_step :: "WorkflowRunner \<Rightarrow> sys_event \<Rightarrow> system \<Rightarrow> system option" where
  "sys_step r ev st =
     (case ev of
        Trigger \<Rightarrow>
          Some (st\<lparr>sys_fields := fields_of (first_turn r (sys_fields st)),
                  sys_calls := sys_calls st @ [first_turn r (sys_fields st)]\<rparr>)
      | Of k e \<Rightarrow>
          if k < length (sys_calls st) \<and>
             (e = Apply \<longrightarrow> sys_queue st \<noteq> [] \<and> hd (sys_queue st) = k)
          then
            (case step r e (with_fields (sys_fields st) (sys_calls st ! k)) of
               None \<Rightarrow> None
             | Some s' \<Rightarrow>
                 Some (st\<lparr>sys_fields := fields_of s',
                         sys_calls := (sys_calls st)[k := s'],
                         sys_queue := queue_after k e (sys_calls st ! k) s' (sys_queue st)\<rparr>))
          else None
      | Finally k \<Rightarrow>
          if k < length (sys_calls st) \<and> finished (sys_calls st ! k) \<and> k \<notin> set (sys_over st)
          then Some (st\<lparr>sys_fields := (sys_fields st)\<lparr>fl_context := reset VUndefined,
                                                      fl_errors := []\<rparr>,
                        sys_over := sys_over st @ [k]\<rparr>)
          else None)"

fun sys_exec :: "WorkflowRunner \<Rightarrow> sys_event list \<Rightarrow> system \<Rightarrow> system option" where
  "sys_exec r [] st = Some st"
| "sys_exec r (ev # evs) st =
     (case sys_step r ev st of None \<Rightarrow> None | Some st' \<Rightarrow> sys_exec r evs st')"

section \<open>Vocabulary of the properties\<close>

fun is_CallExecute :: "effect \<Rightarrow> bool" where
  "is_CallExecute (CallExecute k) = True"
| "is_CallExecute e = False"



text \<open>
  Attempt number \<open>k\<close> of the work function throws, and the value thrown has a string
  form or has none.
\<close>

definition fails_printably :: "Node \<Rightarrow> ctx \<Rightarrow> nat \<Rightarrow> bool" where
  "fails_printably n c k =
     (case execute (options n) k c of Inl e \<Rightarrow> has_string_form e | Inr v \<Rightarrow> False)"


text \<open>The graph of the dependency index: an edge from a node to each dependency.\<close>

definition dep_rel :: "DependencyMap \<Rightarrow> (string \<times> string) set" where
  "dep_rel deps = {(n, d). d \<in> set (dm_get deps n)}"

definition topo :: "DependencyMap \<Rightarrow> string list \<Rightarrow> bool" where
  "topo deps ord = (\<forall>pre n post. ord = pre @ n # post \<longrightarrow> set (dm_get deps n) \<subseteq> set pre)"

definition sort_inv :: "DependencyMap \<Rightarrow> string list \<Rightarrow> string list \<times> string list \<Rightarrow> bool" where
  "sort_inv deps ord0 s =
     (\<exists>new. snd s = ord0 @ new \<and> set (fst s) = set new \<and> distinct new \<and> topo deps new)"

definition index_of :: "'a list \<Rightarrow> 'a \<Rightarrow> nat" where
  "index_of xs x = length (takeWhile (\<lambda>y. y \<noteq> x) xs)"

text \<open>A node on a dependency cycle, and a builder with a cycle that a registered node
  reaches.\<close>

definition on_cycle :: "DependencyMap \<Rightarrow> string \<Rightarrow> bool" where
  "on_cycle deps m = ((m, m) \<in> (dep_rel deps)\<^sup>+)"

definition has_cycle :: "Workflow \<Rightarrow> bool" where
  "has_cycle w =
     (\<exists>k m. k \<in> fst ` set (nodes w) \<and> (k, m) \<in> (dep_rel (nodeDependencies w))\<^sup>* \<and>
        on_cycle (nodeDependencies w) m)"

text \<open>The part of the runner's order list that this \<open>build\<close> pushed.\<close>

definition pushed_order :: "Workflow \<Rightarrow> WorkflowRunner \<Rightarrow> string list" where
  "pushed_order w r = drop (length (topologicalOrder w)) (r_topologicalOrder r)"

fun str_of :: "jsval \<Rightarrow> string" where
  "str_of (VStr s) = s"
| "str_of v = []"

text \<open>The policy that \<open>new Node\<close> refuses.\<close>

definition retry_policy_invalid :: "NodeOptions \<Rightarrow> bool" where
  "retry_policy_invalid opts =
     (\<exists>p. retryPolicy opts = Some p \<and> validateRetryPolicy p \<noteq> Inr ())"

text \<open>A dependency that \<open>addNode\<close> refuses.\<close>

definition bad_dependency :: "Workflow \<Rightarrow> string \<Rightarrow> jsval \<Rightarrow> bool" where
  "bad_dependency w nodeId dep =
     (\<not> is_string dep \<or> dep = VStr nodeId \<or> \<not> has_node (nodes w) (str_of dep))"


fun nonneg_number :: "jsval \<Rightarrow> bool" where
  "nonneg_number (VNum (Finite r)) = (0 \<le> r)"
| "nonneg_number (VNum PosInf) = True"
| "nonneg_number v = False"

subsection \<open>States of a run\<close>

text \<open>What \<open>commit\<close> adds to the error list.\<close>

definition errors_after :: "run_state \<Rightarrow> string \<Rightarrow> phase \<Rightarrow> NodeError list" where
  "errors_after s n ph =
     (case ph of
        Thrown err \<Rightarrow>
          if instanceof_Error err then rs_errors s @ [\<lparr>err_id = n, err_error = err\<rparr>]
          else rs_errors s
      | _ \<Rightarrow> rs_errors s)"

definition commit_event :: "run_state \<Rightarrow> string \<Rightarrow> phase \<Rightarrow> NodeCompletionEvent" where
  "commit_event s n ph =
     (case ph of
        Updated v \<Rightarrow>
          \<lparr>ev_nodeId = n, ev_status = EvCompleted, ev_result = Some v, ev_error = None,
           ev_context = rs_context s\<rparr>
      | Thrown err \<Rightarrow>
          \<lparr>ev_nodeId = n, ev_status = EvFailed, ev_result = None,
           ev_error = (if instanceof_Error err
                       then Some \<lparr>err_id = n, err_error = err\<rparr> else None),
           ev_context = rs_context s\<rparr>
      | _ \<Rightarrow>
          \<lparr>ev_nodeId = n, ev_status = EvFailed, ev_result = None, ev_error = None,
           ev_context = rs_context s\<rparr>)"

definition committable :: "phase \<Rightarrow> bool" where
  "committable ph = (case ph of Updated v \<Rightarrow> True | Thrown e \<Rightarrow> True | _ \<Rightarrow> False)"

definition phase_of :: "run_state \<Rightarrow> string \<Rightarrow> phase option" where
  "phase_of s n = map_of (rs_running s) n"

definition node_inv :: "run_state \<Rightarrow> string \<Rightarrow> bool" where
  "node_inv s n =
     ((n \<in> set (rs_readyNodes s) \<longrightarrow> phase_of s n = None \<and> n \<notin> set (rs_completed s)) \<and>
      (phase_of s n \<noteq> None \<or> n \<in> set (rs_completed s) \<or> n \<in> set (rs_readyNodes s)
         \<longrightarrow> n \<in> fst ` set (rs_nodes s)) \<and>
      (\<forall>ph. phase_of s n = Some ph \<longrightarrow> ((n \<in> set (rs_completed s)) = (ph = Hooking))) \<and>
      (\<forall>v. ((n, v) \<in> set (rs_queue s)) = (phase_of s n = Some (Updating v))) \<and>
      (\<forall>v. (n, v) \<in> set (rs_applied s) \<longrightarrow>
          n \<in> set (rs_completed s) \<or> phase_of s n = Some (Updated v)) \<and>
      (\<forall>v. phase_of s n = Some (Updated v) \<longrightarrow> (n, v) \<in> set (rs_applied s)))"

definition global_inv :: "run_state \<Rightarrow> bool" where
  "global_inv s =
     (distinct (rs_completed s) \<and> distinct (rs_readyNodes s) \<and>
      distinct (map fst (rs_queue s) @ map fst (rs_applied s)) \<and>
      (rs_main s = Waiting \<longrightarrow> rs_running s \<noteq> []))"

definition run_inv :: "run_state \<Rightarrow> bool" where
  "run_inv s = (global_inv s \<and> (\<forall>n. node_inv s n))"

text \<open>
  The context is \<open>{initial: undefined}\<close>, as it is when no call of \<open>trigger\<close> is in
  progress, and no node has the id \<open>initial\<close>, which \<open>addNode\<close> refuses.
\<close>

definition fresh :: "fields \<Rightarrow> bool" where
  "fresh f = (fl_context f = reset VUndefined \<and> ''initial'' \<notin> fst ` set (fl_nodes f))"

definition snapshot_le :: "ctx \<Rightarrow> ctx \<Rightarrow> bool" where
  "snapshot_le c1 c2 = (\<forall>k v. map_of c1 k = Some v \<longrightarrow> map_of c2 k = Some v)"

definition events_inv :: "ctx \<Rightarrow> run_state \<Rightarrow> bool" where
  "events_inv c0 s =
     ((\<forall>i j. i \<le> j \<and> j < length (rs_events s) \<longrightarrow>
         snapshot_le (ev_context (rs_events s ! i)) (ev_context (rs_events s ! j))) \<and>
      (\<forall>ev \<in> set (rs_events s). snapshot_le (ev_context ev) (rs_context s)) \<and>
      (\<forall>ev \<in> set (rs_events s). \<exists>k \<le> length (rs_applied s).
          ev_context ev = spread c0 (take k (rs_applied s))))"

text \<open>The state after the events \<open>es\<close> of a call, and of a runner after the events \<open>evs\<close>.\<close>

definition run_events :: "WorkflowRunner \<Rightarrow> fields \<Rightarrow> event list \<Rightarrow> run_state" where
  "run_events r f es = (case exec r es (start r f) of None \<Rightarrow> start r f | Some s \<Rightarrow> s)"

definition sys_events :: "WorkflowRunner \<Rightarrow> sys_event list \<Rightarrow> system" where
  "sys_events r evs =
     (case sys_exec r evs (new_system r) of None \<Rightarrow> new_system r | Some st \<Rightarrow> st)"

section \<open>Example nodes and graphs\<close>

definition plain_options :: "string \<Rightarrow> jsval list option \<Rightarrow> (nat \<Rightarrow> ctx \<Rightarrow> jsval outcome) \<Rightarrow> NodeOptions" where
  "plain_options i deps f =
     \<lparr>opt_id = i, dependencies = deps, enabled = EnabledUndefined, retryPolicy = None,
      execute = f, errorHandler = None, onCompleted = None\<rparr>"

definition plain_node :: "string \<Rightarrow> jsval list option \<Rightarrow> (nat \<Rightarrow> ctx \<Rightarrow> jsval outcome) \<Rightarrow> Node" where
  "plain_node i deps f =
     \<lparr>options = plain_options i deps f, node_retryPolicy = default_policy, status = Pending\<rparr>"




text \<open>A policy whose delay is \<open>NaN\<close>.\<close>

definition nan_policy :: RetryPolicy where
  "nan_policy = \<lparr>maxRetries = VNum (Finite 0), retryDelayMs = VNum NaN\<rparr>"

text \<open>Options whose retry policy asks for \<open>-1\<close> retries.\<close>

definition bad_retry_options :: NodeOptions where
  "bad_retry_options =
     (plain_options ''a'' None (\<lambda>attempt c. Inr VNull))
        \<lparr>retryPolicy := Some \<lparr>maxRetries = VNum (Finite (- 1)), retryDelayMs = VNum (Finite 100)\<rparr>\<rparr>"

text \<open>
  The graph of the specification's example: \<open>A\<close> returns 1, \<open>B\<close> and \<open>C\<close> depend on \<open>A\<close>
  and add 1 and 2 to its result, \<open>D\<close> depends on \<open>B\<close> and \<open>C\<close> and adds their results.
\<close>

fun num_at :: "ctx \<Rightarrow> string \<Rightarrow> real outcome" where
  "num_at c k =
     (case map_of c k of
        Some (VNum (Finite r)) \<Rightarrow> Inr r
      | _ \<Rightarrow> Inl (VError ''not a number''))"

definition opts_A :: NodeOptions where
  "opts_A = plain_options ''A'' None (\<lambda>attempt c. Inr (VNum (Finite 1)))"

definition opts_B :: NodeOptions where
  "opts_B = plain_options ''B'' (Some [VStr ''A''])
     (\<lambda>attempt c. case num_at c ''A'' of Inl e \<Rightarrow> Inl e | Inr a \<Rightarrow> Inr (VNum (Finite (a + 1))))"

definition opts_C :: NodeOptions where
  "opts_C = plain_options ''C'' (Some [VStr ''A''])
     (\<lambda>attempt c. case num_at c ''A'' of Inl e \<Rightarrow> Inl e | Inr a \<Rightarrow> Inr (VNum (Finite (a + 2))))"

definition opts_D :: NodeOptions where
  "opts_D = plain_options ''D'' (Some [VStr ''B'', VStr ''C''])
     (\<lambda>attempt c. case num_at c ''B'' of Inl e \<Rightarrow> Inl e
        | Inr b \<Rightarrow> (case num_at c ''C'' of Inl e \<Rightarrow> Inl e | Inr c' \<Rightarrow> Inr (VNum (Finite (b + c')))))"

definition wf_A :: Workflow where
  "wf_A = snd (addNode opts_A empty_Workflow)"

definition wf_AB :: Workflow where
  "wf_AB = snd (addNode opts_B wf_A)"

definition wf_ABCD :: Workflow where
  "wf_ABCD = snd (addNode opts_D (snd (addNode opts_C wf_AB)))"

text \<open>A builder state with a cycle: \<open>a\<close> depends on \<open>b\<close> and \<open>b\<close> on \<open>a\<close>.\<close>

definition wf_cyclic :: Workflow where
  "wf_cyclic =
     \<lparr>contextValueOrFactory = Val VUndefined,
      nodes = [(''a'', plain_node ''a'' (Some [VStr ''b'']) (\<lambda>attempt c. Inr VNull)),
               (''b'', plain_node ''b'' (Some [VStr ''a'']) (\<lambda>attempt c. Inr VNull))],
      nodeDependencies = [(''a'', [''b'']), (''b'', [''a''])],
      topologicalOrder = []\<rparr>"

text \<open>The runners that \<open>build\<close> gives for two of these builders.\<close>

definition runner_ABCD :: WorkflowRunner where
  "runner_ABCD =
     \<lparr>r_contextValueOrFactory = Val VUndefined,
      r_topologicalOrder = [''A'', ''B'', ''C'', ''D''],
      r_nodes = nodes wf_ABCD,
      r_nodeDependencies = nodeDependencies wf_ABCD,
      r_onNodesCompleted = Val VUndefined\<rparr>"

definition runner_A_zero_hook :: WorkflowRunner where
  "runner_A_zero_hook =
     \<lparr>r_contextValueOrFactory = Val VUndefined,
      r_topologicalOrder = [''A''],
      r_nodes = nodes wf_A,
      r_nodeDependencies = [],
      r_onNodesCompleted = Val (VNum (Finite 0))\<rparr>"

text \<open>
  The runner of the first \<open>build\<close> of \<open>wf_A\<close>, the builder as that \<open>build\<close> leaves it
  (its sort has pushed \<open>A\<close> onto the order list), and the runner of a second \<open>build\<close>.
\<close>

definition runner_A :: WorkflowRunner where
  "runner_A =
     \<lparr>r_contextValueOrFactory = Val VUndefined,
      r_topologicalOrder = [''A''],
      r_nodes = nodes wf_A,
      r_nodeDependencies = [],
      r_onNodesCompleted = Val VUndefined\<rparr>"

definition wf_A_built :: Workflow where
  "wf_A_built = wf_A\<lparr>topologicalOrder := r_topologicalOrder runner_A\<rparr>"

definition runner_A_again :: WorkflowRunner where
  "runner_A_again = runner_A\<lparr>r_topologicalOrder := [''A'', ''A'']\<rparr>"

definition hooked_node :: "string \<Rightarrow> jsval \<Rightarrow> Node" where
  "hooked_node i v =
     \<lparr>options = (plain_options i None (\<lambda>attempt c. Inr v))\<lparr>onCompleted := Some (\<lambda>ev. Inr ())\<rparr>,
      node_retryPolicy = default_policy, status = Pending\<rparr>"

definition runner_hooked :: WorkflowRunner where
  "runner_hooked =
     \<lparr>r_contextValueOrFactory = Val (VNum (Finite 100)),
      r_topologicalOrder = [''node1'', ''node2''],
      r_nodes = [(''node1'', hooked_node ''node1'' (VNum (Finite 101))),
                 (''node2'', hooked_node ''node2'' (VNum (Finite 102)))],
      r_nodeDependencies = [],
      r_onNodesCompleted = Val VUndefined\<rparr>"

definition hooked_events :: "event list" where
  "hooked_events =
     [MainStep, Settle ''node1'', Settle ''node2'', Apply, Commit ''node1'', Apply,
      Commit ''node2'', Finalize ''node2'', Finalize ''node1'', MainStep]"

text \<open>
  Two calls of \<open>trigger\<close> that overlap, on a runner with no seed for the context whose
  two nodes have a completion hook. The first call starts both nodes and \<open>node1\<close>
  completes. The second call is made: it finds the context with the key \<open>node1\<close>,
  starts both nodes again, and its \<open>node1\<close> completes. Then \<open>node2\<close> of the first call
  completes, the first call returns and its \<open>finally\<close> block resets the context. At
  last \<open>node2\<close> of the second call completes.
\<close>

definition runner_overlap :: WorkflowRunner where
  "runner_overlap = runner_hooked\<lparr>r_contextValueOrFactory := Val VUndefined\<rparr>"

definition overlap_events :: "sys_event list" where
  "overlap_events =
     [Trigger,
      Of 0 (Settle ''node1''), Of 0 Apply, Of 0 (Commit ''node1''), Of 0 (Finalize ''node1''),
      Of 0 MainStep,
      Trigger,
      Of 1 (Settle ''node1''), Of 1 Apply, Of 1 (Commit ''node1''), Of 1 (Finalize ''node1''),
      Of 1 MainStep,
      Of 0 (Settle ''node2''), Of 0 Apply, Of 0 (Commit ''node2''), Of 0 (Finalize ''node2''),
      Of 0 MainStep,
      Finally 0,
      Of 1 (Settle ''node2''), Of 1 Apply, Of 1 (Commit ''node2'')]"

text \<open>
  Two runners with one node: the context factory of the first returns 0, and the second
  has the initial context value 0.
\<close>

definition seed_node :: Node where
  "seed_node = plain_node ''node1'' None (\<lambda>attempt c. Inr (VStr ''done''))"

definition runner_zero_factory :: WorkflowRunner where
  "runner_zero_factory =
     \<lparr>r_contextValueOrFactory = Fun (Inr (VNum (Finite 0))),
      r_topologicalOrder = [''node1''],
      r_nodes = [(''node1'', seed_node)],
      r_nodeDependencies = [],
      r_onNodesCompleted = Val VUndefined\<rparr>"



definition wf_zero_factory :: Workflow where
  "wf_zero_factory =
     snd (addNode (plain_options ''node1'' None (\<lambda>attempt c. Inr (VStr ''done'')))
       (projr (new_Workflow (Some \<lparr>contextValue = None,
                                   contextFactory = Some (Fun (Inr (VNum (Finite 0))))\<rparr>))))"

text \<open>A runner with one node, without seed and without overall hook, and its one run.\<close>

definition single_runner :: "string \<Rightarrow> Node \<Rightarrow> WorkflowRunner" where
  "single_runner i n =
     \<lparr>r_contextValueOrFactory = Val VUndefined,
      r_topologicalOrder = [i],
      r_nodes = [(i, n)],
      r_nodeDependencies = [],
      r_onNodesCompleted = Val VUndefined\<rparr>"

definition single_run :: "string \<Rightarrow> event list" where
  "single_run i = [MainStep, Settle i, Apply, Commit i, MainStep]"

text \<open>The builder of the repository's test \<open>disabled node is skipped\<close>.\<close>

definition disabled_options :: NodeOptions where
  "disabled_options =
     (plain_options ''node1'' None (\<lambda>attempt c. Inr (VStr ''result1'')))
       \<lparr>enabled := EnabledBool False\<rparr>"

definition wf_disabled :: Workflow where
  "wf_disabled = snd (addNode disabled_options empty_Workflow)"

definition disabled_node :: Node where
  "disabled_node = \<lparr>options = disabled_options, node_retryPolicy = default_policy, status = Pending\<rparr>"

section \<open>Node: construction and run\<close>

lemma validateRetryPolicy_ok_iff:
  "(validateRetryPolicy p = Inr ()) =
     (is_number (maxRetries p) \<and> \<not> lt_zero (maxRetries p) \<and> Number_isInteger (maxRetries p)
      \<and> is_number (retryDelayMs p) \<and> \<not> lt_zero (retryDelayMs p))"
  by (auto simp: validateRetryPolicy_def)

lemma new_Node_fails_iff:
  "isl (new_Node opts) = retry_policy_invalid opts"
  by (auto simp: new_Node_def retry_policy_invalid_def split: option.splits sum.splits)

lemma new_Node_stores_policy:
  "retryPolicy opts = Some p \<Longrightarrow> validateRetryPolicy p = Inr () \<Longrightarrow>
   new_Node opts = Inr \<lparr>options = opts, node_retryPolicy = p, status = Pending\<rparr>"
  by (simp add: new_Node_def)

text \<open>
  C9. Construction with a retry policy is to fail exactly when \<open>maxRetries\<close> is not a
  non-negative integer or \<open>retryDelayMs\<close> is not a non-negative number. The check of
  the delay is \<^verbatim>\<open>typeof retryDelayMs !== "number" || retryDelayMs < 0\<close>, and both tests are
  false for \<open>NaN\<close>: a policy whose delay is \<open>NaN\<close>, which is not a non-negative number,
  passes the validation, the node is built and the policy is stored.
\<close>

theorem new_Node_accepts_NaN_delay:
  "\<not> nonneg_number (retryDelayMs nan_policy) \<and>
   validateRetryPolicy nan_policy = Inr () \<and>
   new_Node (opts\<lparr>retryPolicy := Some nan_policy\<rparr>) =
     Inr \<lparr>options = opts\<lparr>retryPolicy := Some nan_policy\<rparr>,
          node_retryPolicy = nan_policy, status = Pending\<rparr>"
  by (simp add: nan_policy_def validateRetryPolicy_def new_Node_def)

theorem new_Node_accepts_NaN_delay_witness:
  "isl (new_Node (opts_A\<lparr>retryPolicy := Some nan_policy\<rparr>)) = False \<and>
   \<not> nonneg_number (retryDelayMs nan_policy)"
  using new_Node_accepts_NaN_delay [of opts_A] by simp

lemma handler_effects_no_exec [simp]: "filter is_CallExecute (handler_effects n e c) = []"
  by (simp add: handler_effects_def split: option.splits)

lemma handler_effects_status [simp]:
  "handler_effects (n\<lparr>status := st\<rparr>) e c = handler_effects n e c"
  by (simp add: handler_effects_def)

lemma handler_unprintable_status [simp]:
  "handler_unprintable (n\<lparr>status := st\<rparr>) e c = handler_unprintable n e c"
  by (simp add: handler_unprintable_def)

lemma last_attempt_failed_status [simp]:
  "last_attempt_failed (n\<lparr>status := st\<rparr>) c k e = last_attempt_failed n c k e"
  by (simp add: last_attempt_failed_def)

lemma double_succ_small [simp]: "x < 2 ^ 53 \<Longrightarrow> double_succ x = x + 1"
  by (simp add: double_succ_def)

lemma fails_printably_status [simp]:
  "fails_printably (n\<lparr>status := st\<rparr>) c k = fails_printably n c k"
  by (simp add: fails_printably_def)





lemma last_attempt_failed_facts:
  "options (fst (last_attempt_failed n c k e)) = options n"
  "node_retryPolicy (fst (last_attempt_failed n c k e)) = node_retryPolicy n"
  "filter is_CallExecute (fst (snd (last_attempt_failed n c k e))) = [CallExecute k]"
  by (simp_all add: last_attempt_failed_def)










section \<open>The builder: addNode\<close>

lemma map_of_dm_add_map:
  "map_of (map (\<lambda>(k', vs). if k' = k then (k', vs @ [v]) else (k', vs)) m) k' =
     (if k' = k then map_option (\<lambda>vs. vs @ [v]) (map_of m k) else map_of m k')"
  by (induction m) auto

lemma dm_get_dm_add:
  "dm_get (dm_add m k v) k' = (if k' = k then dm_get m k @ [v] else dm_get m k')"
proof (cases "k \<in> fst ` set m")
  case True
  then obtain vs where "map_of m k = Some vs"
    by (metis domD dom_map_of_conv_image_fst)
  with True show ?thesis
    by (simp add: dm_get_def dm_add_def map_of_dm_add_map)
next
  case False
  then have "map_of m k = None" by (simp add: map_of_eq_None_iff)
  with False show ?thesis
    by (auto simp: dm_get_def dm_add_def map_add_def split: option.splits)
qed

lemma add_dependencies_nodes [simp]:
  "nodes (snd (add_dependencies i ds w)) = nodes w"
  by (induction i ds w rule: add_dependencies.induct) (auto split: jsval.splits)

lemma add_dependencies_other [simp]:
  "contextValueOrFactory (snd (add_dependencies i ds w)) = contextValueOrFactory w"
  "topologicalOrder (snd (add_dependencies i ds w)) = topologicalOrder w"
  by (induction i ds w rule: add_dependencies.induct) (auto split: jsval.splits)

lemma add_dependencies_throws_iff:
  "(fst (add_dependencies i ds w) \<noteq> None) = (\<exists>dep \<in> set ds. bad_dependency w i dep)"
proof (induction i ds w rule: add_dependencies.induct)
  case (1 nodeId w)
  show ?case by simp
next
  case (2 nodeId depId rest w)
  show ?case
  proof (cases depId)
    case (VStr d)
    show ?thesis
    proof (cases "d = nodeId \<or> \<not> has_node (nodes w) d")
      case True
      with VStr show ?thesis by (auto simp: bad_dependency_def)
    next
      case False
      with VStr "2.IH"[of d] show ?thesis by (auto simp: bad_dependency_def)
    qed
  qed (auto simp: bad_dependency_def)
qed

lemma add_dependencies_edges:
  "fst (add_dependencies i ds w) = None \<Longrightarrow>
   dm_get (nodeDependencies (snd (add_dependencies i ds w))) k =
     (if k = i then dm_get (nodeDependencies w) i @ map str_of ds
      else dm_get (nodeDependencies w) k)"
proof (induction i ds w rule: add_dependencies.induct)
  case (1 nodeId w)
  show ?case by simp
next
  case (2 nodeId depId rest w)
  show ?case
  proof (cases depId)
    case (VStr d)
    with "2.prems" have ok: "d \<noteq> nodeId" "has_node (nodes w) d"
      by (auto split: if_splits)
    with VStr "2.prems" "2.IH"[of d] show ?thesis
      by (simp add: dm_get_dm_add)
  qed (use "2.prems" in auto)
qed

text \<open>
  C6, as amended. \<open>addNode(options)\<close> throws exactly when the id is \<open>initial\<close>, or the id
  is already registered, or the retry policy is one that the constructor of \<open>Node\<close>
  refuses, or some listed dependency is not a string, equals the id, or names no
  registered node. Otherwise it registers the node (after the ones registered before),
  appends the listed dependencies, in list order, to the node's entry of the dependency
  index, changes no other entry, and returns the builder.
\<close>

theorem addNode_contract:
  "(fst (addNode opts w) \<noteq> None) =
     (opt_id opts = ''initial'' \<or> has_node (nodes w) (opt_id opts) \<or> retry_policy_invalid opts \<or>
      (\<exists>dep \<in> set (listed_dependencies opts). bad_dependency w (opt_id opts) dep)) \<and>
   (fst (addNode opts w) = None \<longrightarrow>
      new_Node opts = Inr \<lparr>options = opts,
         node_retryPolicy = (case retryPolicy opts of None \<Rightarrow> default_policy | Some p \<Rightarrow> p),
         status = Pending\<rparr> \<and>
      nodes (snd (addNode opts w)) =
        nodes w @ [(opt_id opts, \<lparr>options = opts,
         node_retryPolicy = (case retryPolicy opts of None \<Rightarrow> default_policy | Some p \<Rightarrow> p),
         status = Pending\<rparr>)] \<and>
      dm_get (nodeDependencies (snd (addNode opts w))) (opt_id opts) =
        dm_get (nodeDependencies w) (opt_id opts) @ map str_of (listed_dependencies opts) \<and>
      (\<forall>k. k \<noteq> opt_id opts \<longrightarrow>
         dm_get (nodeDependencies (snd (addNode opts w))) k = dm_get (nodeDependencies w) k) \<and>
      contextValueOrFactory (snd (addNode opts w)) = contextValueOrFactory w \<and>
      topologicalOrder (snd (addNode opts w)) = topologicalOrder w)"
proof (cases "opt_id opts = ''initial'' \<or> has_node (nodes w) (opt_id opts)")
  case True
  then show ?thesis by (auto simp: addNode_def)
next
  case ok: False
  show ?thesis
  proof (cases "new_Node opts")
    case (Inl e)
    then have "retry_policy_invalid opts"
      using new_Node_fails_iff[of opts] by simp
    with ok Inl show ?thesis by (simp add: addNode_def)
  next
    case (Inr node)
    then have valid: "\<not> retry_policy_invalid opts"
      using new_Node_fails_iff[of opts] by simp
    from Inr have node: "node = \<lparr>options = opts,
         node_retryPolicy = (case retryPolicy opts of None \<Rightarrow> default_policy | Some p \<Rightarrow> p),
         status = Pending\<rparr>"
      by (auto simp: new_Node_def split: option.splits sum.splits)
    obtain eo w' where ad: "add_dependencies (opt_id opts) (listed_dependencies opts) w = (eo, w')"
      by (cases "add_dependencies (opt_id opts) (listed_dependencies opts) w")
    show ?thesis
    proof (cases eo)
      case None
      with ad have f: "fst (add_dependencies (opt_id opts) (listed_dependencies opts) w) = None"
        by simp
      from add_dependencies_throws_iff[of "opt_id opts" "listed_dependencies opts" w] f
      have nobad: "\<not> (\<exists>dep \<in> set (listed_dependencies opts). bad_dependency w (opt_id opts) dep)"
        by simp
      have w': "w' = snd (add_dependencies (opt_id opts) (listed_dependencies opts) w)"
        using ad by simp
      have res: "addNode opts w = (None, w'\<lparr>nodes := nodes w' @ [(opt_id opts, node)]\<rparr>)"
        using ok Inr ad None by (simp add: addNode_def)
      have "nodes w' = nodes w" "contextValueOrFactory w' = contextValueOrFactory w"
        "topologicalOrder w' = topologicalOrder w"
        by (simp_all add: w')
      moreover have "dm_get (nodeDependencies w') k =
        (if k = opt_id opts then dm_get (nodeDependencies w) (opt_id opts) @ map str_of (listed_dependencies opts)
         else dm_get (nodeDependencies w) k)" for k
        unfolding w' by (rule add_dependencies_edges[OF f])
      ultimately show ?thesis
        using ok valid nobad Inr node by (simp add: res)
    next
      case (Some e)
      with ad have "fst (add_dependencies (opt_id opts) (listed_dependencies opts) w) \<noteq> None"
        by simp
      with add_dependencies_throws_iff[of "opt_id opts" "listed_dependencies opts" w]
      have "\<exists>dep \<in> set (listed_dependencies opts). bad_dependency w (opt_id opts) dep"
        by simp
      moreover have "addNode opts w = (Some e, w')"
        using ok Inr ad Some by (simp add: addNode_def)
      ultimately show ?thesis by simp
    qed
  qed
qed


theorem addNode_contract_witness:
  "fst (addNode opts_B wf_A) = None \<and>
   map fst (nodes (snd (addNode opts_B wf_A))) = [''A'', ''B''] \<and>
   dm_get (nodeDependencies (snd (addNode opts_B wf_A))) ''B'' = [''A'']"
proof -
  have a: "opt_id opts_B \<noteq> ''initial''" "\<not> has_node (nodes wf_A) (opt_id opts_B)"
    "\<not> retry_policy_invalid opts_B"
    "\<not> (\<exists>dep \<in> set (listed_dependencies opts_B). bad_dependency wf_A (opt_id opts_B) dep)"
    by (simp_all add: opts_B_def opts_A_def plain_options_def wf_A_def addNode_def new_Node_def
        empty_Workflow_def has_node_def listed_dependencies_def retry_policy_invalid_def
        bad_dependency_def)
  have b: "nodes wf_A = [(''A'', \<lparr>options = opts_A, node_retryPolicy = default_policy, status = Pending\<rparr>)]"
    "dm_get (nodeDependencies wf_A) ''B'' = []"
    by (simp_all add: opts_A_def plain_options_def wf_A_def addNode_def new_Node_def
        empty_Workflow_def has_node_def listed_dependencies_def dm_get_def)
  from addNode_contract[of opts_B wf_A] a have "fst (addNode opts_B wf_A) = None"
    by blast
  with addNode_contract[of opts_B wf_A] b show ?thesis
    by (simp add: opts_B_def plain_options_def listed_dependencies_def)
qed

text \<open>
  C6 as stated lists five conditions and says that \<open>addNode\<close> throws exactly when one of
  them holds. Options with a fresh id, no dependency and a retry policy of \<open>-1\<close> retries
  meet none of the five, and \<open>addNode\<close> throws: it builds the node first, and the
  constructor validates the policy.
\<close>

theorem addNode_invalid_policy_counterexample:
  "opt_id bad_retry_options \<noteq> ''initial'' \<and>
   \<not> has_node (nodes empty_Workflow) (opt_id bad_retry_options) \<and>
   listed_dependencies bad_retry_options = [] \<and>
   fst (addNode bad_retry_options empty_Workflow) = Some MaxRetriesInvalid"
  by (simp add: bad_retry_options_def plain_options_def empty_Workflow_def has_node_def
      listed_dependencies_def addNode_def new_Node_def validateRetryPolicy_def)

section \<open>The builder: build and its topological sort\<close>

lemma topo_snoc:
  assumes "topo deps new" "set (dm_get deps n) \<subseteq> set new"
  shows "topo deps (new @ [n])"
  unfolding topo_def
proof (intro allI impI)
  fix pre m post
  assume eq: "new @ [n] = pre @ m # post"
  show "set (dm_get deps m) \<subseteq> set pre"
  proof (cases post rule: rev_cases)
    case Nil
    with eq have "pre = new" "m = n" by auto
    with assms(2) show ?thesis by simp
  next
    case (snoc post' x)
    with eq have "new = pre @ m # post'" by simp
    with assms(1) show ?thesis unfolding topo_def by blast
  qed
qed

lemma visit_inv:
  "visit deps temp n s = Inr s' \<Longrightarrow> sort_inv deps ord0 s \<Longrightarrow>
     sort_inv deps ord0 s' \<and> set (fst s) \<subseteq> set (fst s') \<and> n \<in> set (fst s') \<and>
     (set (fst s') - set (fst s)) \<inter> set temp = {}"
  and visit_deps_inv:
  "visit_deps deps temp ds s = Inr s' \<Longrightarrow> sort_inv deps ord0 s \<Longrightarrow>
     sort_inv deps ord0 s' \<and> set (fst s) \<subseteq> set (fst s') \<and> set ds \<subseteq> set (fst s') \<and>
     (set (fst s') - set (fst s)) \<inter> set temp = {}"
proof (induction deps temp n s and deps temp ds s arbitrary: s' and s'
    rule: visit_visit_deps.induct)
  case (1 deps temp nodeId visited order)
  show ?case
  proof (cases "nodeId \<in> set temp")
    case True
    with "1.prems"(1) show ?thesis by (simp add: visit.simps)
  next
    case nt: False
    show ?thesis
    proof (cases "nodeId \<in> set visited")
      case True
      with nt "1.prems" show ?thesis by (auto simp: visit.simps)
    next
      case nv: False
      from nt nv "1.prems"(1) obtain visited' order' where
        vd: "visit_deps deps (nodeId # temp) (dm_get deps nodeId) (visited, order) = Inr (visited', order')"
        and s': "s' = (nodeId # visited', order' @ [nodeId])"
        by (auto simp: visit.simps split: sum.splits)
      from "1.IH"[OF nt nv vd "1.prems"(2)] have
        inv': "sort_inv deps ord0 (visited', order')"
        and mono: "set visited \<subseteq> set visited'"
        and deps_in: "set (dm_get deps nodeId) \<subseteq> set visited'"
        and fresh: "(set visited' - set visited) \<inter> set (nodeId # temp) = {}"
        by auto
      from fresh nv have nn: "nodeId \<notin> set visited'" by auto
      from inv' obtain new where new: "order' = ord0 @ new" "set visited' = set new"
        "distinct new" "topo deps new"
        by (auto simp: sort_inv_def)
      have "sort_inv deps ord0 s'"
        unfolding sort_inv_def s'
        using new nn deps_in topo_snoc[of deps new nodeId]
        by (intro exI[of _ "new @ [nodeId]"]) auto
      moreover have "(set (fst s') - set visited) \<inter> set temp = {}"
        using fresh nt by (auto simp: s')
      ultimately show ?thesis using mono by (auto simp: s')
    qed
  qed
next
  case (2 deps temp s)
  then show ?case by simp
next
  case (3 deps temp depId rest s)
  from "3.prems"(1) obtain s1 where
    v: "visit deps temp depId s = Inr s1" and vd: "visit_deps deps temp rest s1 = Inr s'"
    by (auto split: sum.splits)
  from "3.IH"(1)[OF v "3.prems"(2)] have
    a: "sort_inv deps ord0 s1" "set (fst s) \<subseteq> set (fst s1)" "depId \<in> set (fst s1)"
       "(set (fst s1) - set (fst s)) \<inter> set temp = {}"
    by auto
  from "3.IH"(2)[OF v vd a(1)] have
    b: "sort_inv deps ord0 s'" "set (fst s1) \<subseteq> set (fst s')" "set rest \<subseteq> set (fst s')"
       "(set (fst s') - set (fst s1)) \<inter> set temp = {}"
    by auto
  from a b show ?case by auto
qed

lemma sort_loop_inv:
  "sort_loop deps ks s = Inr s' \<Longrightarrow> sort_inv deps ord0 s \<Longrightarrow>
     sort_inv deps ord0 s' \<and> set (fst s) \<subseteq> set (fst s') \<and> set ks \<subseteq> set (fst s')"
proof (induction deps ks s arbitrary: s' rule: sort_loop.induct)
  case (1 deps s)
  then show ?case by simp
next
  case (2 deps nodeId rest visited order)
  show ?case
  proof (cases "nodeId \<in> set visited")
    case True
    with "2.prems" "2.IH"(2)[of s'] show ?thesis by auto
  next
    case False
    with "2.prems"(1) obtain s1 where
      v: "visit deps [] nodeId (visited, order) = Inr s1" and sl: "sort_loop deps rest s1 = Inr s'"
      by (auto split: sum.splits)
    from visit_inv[OF v "2.prems"(2)] have
      a: "sort_inv deps ord0 s1" "set visited \<subseteq> set (fst s1)" "nodeId \<in> set (fst s1)"
      by auto
    from "2.IH"(1)[OF False v sl a(1)] a show ?thesis by auto
  qed
qed


lemma index_of_split: "n \<notin> set pre \<Longrightarrow> index_of (pre @ n # post) n = length pre"
  by (induction pre) (auto simp: index_of_def)

lemma index_of_in_prefix: "d \<in> set pre \<Longrightarrow> index_of (pre @ rest) d < length pre"
proof -
  assume "d \<in> set pre"
  then have "takeWhile (\<lambda>y. y \<noteq> d) (pre @ rest) = takeWhile (\<lambda>y. y \<noteq> d) pre"
    by (simp add: takeWhile_append1)
  moreover have "length (takeWhile (\<lambda>y. y \<noteq> d) pre) < length pre"
    using \<open>d \<in> set pre\<close> by (induction pre) auto
  ultimately show ?thesis by (simp add: index_of_def)
qed

lemma topo_edge:
  assumes "topo deps new" "distinct new" "n \<in> set new" "d \<in> set (dm_get deps n)"
  shows "d \<in> set new \<and> index_of new d < index_of new n"
proof -
  from assms(3) obtain pre post where sp: "new = pre @ n # post"
    by (auto dest: split_list)
  with assms(2) have "n \<notin> set pre" by auto
  then have "index_of new n = length pre" by (simp add: sp index_of_split)
  moreover from assms(1,4) sp have "d \<in> set pre" unfolding topo_def by blast
  moreover from this have "index_of new d < length pre"
    unfolding sp by (rule index_of_in_prefix)
  ultimately show ?thesis using sp by auto
qed

lemma topo_path:
  assumes "topo deps new" "distinct new"
  shows "(n, m) \<in> (dep_rel deps)\<^sup>+ \<Longrightarrow> n \<in> set new \<Longrightarrow>
         m \<in> set new \<and> index_of new m < index_of new n"
proof (induction rule: trancl_induct)
  case (base y)
  then show ?case using topo_edge[OF assms] by (auto simp: dep_rel_def)
next
  case (step y z)
  then have "y \<in> set new" "index_of new y < index_of new n" by auto
  moreover from step(2) have "z \<in> set (dm_get deps y)" by (simp add: dep_rel_def)
  ultimately show ?case using topo_edge[OF assms, of y z] by auto
qed

lemma topo_no_cycle:
  assumes "topo deps new" "distinct new" "k \<in> set new" "(k, m) \<in> (dep_rel deps)\<^sup>*"
  shows "(m, m) \<notin> (dep_rel deps)\<^sup>+"
proof
  assume cyc: "(m, m) \<in> (dep_rel deps)\<^sup>+"
  from assms(4) have "m \<in> set new"
  proof (cases rule: rtranclE[case_names refl step])
    case refl
    with assms(3) show ?thesis by simp
  next
    case (step y)
    then have "(k, m) \<in> (dep_rel deps)\<^sup>+" by (simp add: rtrancl_into_trancl1)
    with topo_path[OF assms(1,2) _ assms(3)] show ?thesis by blast
  qed
  with topo_path[OF assms(1,2) cyc] show False by auto
qed

lemma visit_error:
  "visit deps temp n s = Inl e \<Longrightarrow>
     \<exists>m. e = CircularDependency m \<and> (n, m) \<in> (dep_rel deps)\<^sup>* \<and>
         (m \<in> set temp \<or> (m, m) \<in> (dep_rel deps)\<^sup>+)"
  and visit_deps_error:
  "visit_deps deps temp ds s = Inl e \<Longrightarrow>
     \<exists>m d. e = CircularDependency m \<and> d \<in> set ds \<and> (d, m) \<in> (dep_rel deps)\<^sup>* \<and>
         (m \<in> set temp \<or> (m, m) \<in> (dep_rel deps)\<^sup>+)"
proof (induction deps temp n s and deps temp ds s rule: visit_visit_deps.induct)
  case (1 deps temp nodeId visited order)
  show ?case
  proof (cases "nodeId \<in> set temp")
    case True
    with "1.prems" show ?thesis by (auto simp: visit.simps)
  next
    case nt: False
    show ?thesis
    proof (cases "nodeId \<in> set visited")
      case True
      with nt "1.prems" show ?thesis by (simp add: visit.simps)
    next
      case nv: False
      with nt "1.prems" have
        "visit_deps deps (nodeId # temp) (dm_get deps nodeId) (visited, order) = Inl e"
        by (auto simp: visit.simps split: sum.splits)
      from "1.IH"[OF nt nv this] obtain m d where
        md: "e = CircularDependency m" "d \<in> set (dm_get deps nodeId)"
            "(d, m) \<in> (dep_rel deps)\<^sup>*"
            "m \<in> set (nodeId # temp) \<or> (m, m) \<in> (dep_rel deps)\<^sup>+"
        by blast
      from md(2) have "(nodeId, d) \<in> dep_rel deps" by (simp add: dep_rel_def)
      from this md(3) have path: "(nodeId, m) \<in> (dep_rel deps)\<^sup>+" by (rule rtrancl_into_trancl2)
      then have "(nodeId, m) \<in> (dep_rel deps)\<^sup>*" by simp
      moreover have "m \<in> set temp \<or> (m, m) \<in> (dep_rel deps)\<^sup>+"
        using md(4) path by auto
      ultimately show ?thesis using md(1) by blast
    qed
  qed
next
  case (2 deps temp s)
  then show ?case by simp
next
  case (3 deps temp depId rest s)
  show ?case
  proof (cases "visit deps temp depId s")
    case (Inl e')
    with "3.prems" have "e' = e" by simp
    with "3.IH"(1) Inl show ?thesis by auto
  next
    case (Inr s1)
    with "3.prems" have "visit_deps deps temp rest s1 = Inl e" by simp
    from "3.IH"(2)[OF Inr this] show ?thesis by auto
  qed
qed

lemma sort_loop_error:
  "sort_loop deps ks s = Inl e \<Longrightarrow>
     \<exists>m k. e = CircularDependency m \<and> k \<in> set ks \<and> (k, m) \<in> (dep_rel deps)\<^sup>* \<and>
         (m, m) \<in> (dep_rel deps)\<^sup>+"
proof (induction deps ks s rule: sort_loop.induct)
  case (1 deps s)
  then show ?case by simp
next
  case (2 deps nodeId rest visited order)
  show ?case
  proof (cases "nodeId \<in> set visited")
    case True
    with "2.prems" "2.IH"(2) show ?thesis by auto
  next
    case False
    show ?thesis
    proof (cases "visit deps [] nodeId (visited, order)")
      case (Inl e')
      with False "2.prems" have "e' = e" by simp
      with visit_error[of deps "[]" nodeId "(visited, order)" e] Inl show ?thesis by auto
    next
      case (Inr s1)
      with False "2.prems" have "sort_loop deps rest s1 = Inl e" by simp
      from "2.IH"(1)[OF False Inr this] show ?thesis by auto
    qed
  qed
qed


lemma distinct_count_list: "distinct xs \<Longrightarrow> x \<in> set xs \<Longrightarrow> count_list xs x = 1"
  by (induction xs) auto

lemma sort_inv_init: "sort_inv deps ord0 ([], ord0)"
  by (simp add: sort_inv_def topo_def)

lemma topologicalSort_success:
  assumes "topologicalSort w = Inr w'"
  shows "\<exists>new. topologicalOrder w' = topologicalOrder w @ new \<and> distinct new \<and>
           fst ` set (nodes w) \<subseteq> set new \<and> topo (nodeDependencies w) new \<and>
           nodes w' = nodes w \<and> nodeDependencies w' = nodeDependencies w \<and>
           contextValueOrFactory w' = contextValueOrFactory w"
proof -
  from assms obtain visited order where
    sl: "sort_loop (nodeDependencies w) (map fst (nodes w)) ([], topologicalOrder w) = Inr (visited, order)"
    and w': "w' = w\<lparr>topologicalOrder := order\<rparr>"
    by (auto simp: topologicalSort_def split: sum.splits)
  from sort_loop_inv[OF sl sort_inv_init] show ?thesis
    by (auto simp: sort_inv_def w')
qed

lemma topologicalSort_error:
  assumes "topologicalSort w = Inl e"
  shows "\<exists>m. e = CircularDependency m \<and> on_cycle (nodeDependencies w) m \<and> has_cycle w"
proof -
  from assms have
    "sort_loop (nodeDependencies w) (map fst (nodes w)) ([], topologicalOrder w) = Inl e"
    by (auto simp: topologicalSort_def split: sum.splits)
  from sort_loop_error[OF this] show ?thesis
    by (auto simp: has_cycle_def on_cycle_def)
qed

lemma topologicalSort_cyclic:
  assumes "has_cycle w"
  shows "isl (topologicalSort w)"
proof (rule ccontr)
  assume "\<not> isl (topologicalSort w)"
  then obtain w' where "topologicalSort w = Inr w'"
    by (cases "topologicalSort w") auto
  from topologicalSort_success[OF this] obtain new where
    new: "distinct new" "fst ` set (nodes w) \<subseteq> set new" "topo (nodeDependencies w) new"
    by blast
  from assms obtain k m where
    "k \<in> fst ` set (nodes w)" "(k, m) \<in> (dep_rel (nodeDependencies w))\<^sup>*"
    "(m, m) \<in> (dep_rel (nodeDependencies w))\<^sup>+"
    by (auto simp: has_cycle_def on_cycle_def)
  with topo_no_cycle[OF new(3) new(1), of k m] new(2) show False by auto
qed

text \<open>
  The depth-first sort pushes onto the order list of the builder, which the runner
  then shares. What one \<open>build\<close> pushes holds every registered node exactly once, and
  every dependency of a node of that part is in it at a smaller index than the node.
\<close>

lemma build_pushed_order:
  assumes "build h w = Inr r"
  shows "r_topologicalOrder r = topologicalOrder w @ pushed_order w r \<and>
    distinct (pushed_order w r) \<and>
    (\<forall>k \<in> fst ` set (nodes w). count_list (pushed_order w r) k = 1) \<and>
    (\<forall>n \<in> set (pushed_order w r). \<forall>d \<in> set (dm_get (nodeDependencies w) n).
        d \<in> set (pushed_order w r) \<and>
        index_of (pushed_order w r) d < index_of (pushed_order w r) n)"
proof -
  from assms obtain w' where ts: "topologicalSort w = Inr w'"
    and r: "r_topologicalOrder r = topologicalOrder w'"
    by (auto simp: build_def split: if_splits sum.splits)
  from topologicalSort_success[OF ts] obtain new where
    new: "topologicalOrder w' = topologicalOrder w @ new" "distinct new"
      "fst ` set (nodes w) \<subseteq> set new" "topo (nodeDependencies w) new"
    by blast
  have p: "pushed_order w r = new"
    by (simp add: pushed_order_def r new(1))
  have "\<forall>k \<in> fst ` set (nodes w). count_list new k = 1"
  proof
    fix k assume "k \<in> fst ` set (nodes w)"
    with new(3) have "k \<in> set new" by blast
    with new(2) show "count_list new k = 1" by (rule distinct_count_list)
  qed
  moreover have "\<forall>n \<in> set new. \<forall>d \<in> set (dm_get (nodeDependencies w) n).
        d \<in> set new \<and> index_of new d < index_of new n"
    using topo_edge[OF new(4) new(2)] by blast
  ultimately show ?thesis using new(1,2) r by (simp add: p)
qed

text \<open>
  C5, as amended. When the first \<open>build\<close> of a builder (its order list is still empty)
  accepts a graph, the topological order of the runner holds every registered node
  exactly once, and every dependency of a node of the list is in the list at a smaller
  index than the node.
\<close>

theorem build_topological_order:
  assumes "build h w = Inr r" and "topologicalOrder w = []"
  shows "distinct (r_topologicalOrder r) \<and>
    (\<forall>k \<in> fst ` set (nodes w). count_list (r_topologicalOrder r) k = 1) \<and>
    (\<forall>n \<in> set (r_topologicalOrder r). \<forall>d \<in> set (dm_get (nodeDependencies w) n).
        d \<in> set (r_topologicalOrder r) \<and>
        index_of (r_topologicalOrder r) d < index_of (r_topologicalOrder r) n)"
proof -
  from build_pushed_order[OF assms(1)] assms(2)
  have "r_topologicalOrder r = pushed_order w r" by simp
  with build_pushed_order[OF assms(1)] show ?thesis by simp
qed

text \<open>
  C7, as amended. \<open>build\<close> throws when no node is registered, and when the hook it is
  given is truthy and not a function (a falsy value is taken as no hook). Otherwise,
  if a registered node reaches a dependency cycle, \<open>build\<close> itself throws the circular
  dependency error, naming a node on a cycle, so that no runner exists to trigger; and
  if there is no such cycle, \<open>build\<close> returns a runner.
\<close>

theorem build_errors:
  "(size_of w = 0 \<longrightarrow> build h w = Inl NoNodesAdded) \<and>
   (size_of w \<noteq> 0 \<and> truthy_js h \<and> \<not> is_function h \<longrightarrow> build h w = Inl HookNotFunction) \<and>
   (size_of w \<noteq> 0 \<and> (truthy_js h \<longrightarrow> is_function h) \<and> has_cycle w \<longrightarrow>
      (\<exists>m. build h w = Inl (CircularDependency m) \<and> on_cycle (nodeDependencies w) m)) \<and>
   (size_of w \<noteq> 0 \<and> (truthy_js h \<longrightarrow> is_function h) \<and> \<not> has_cycle w \<longrightarrow>
      (\<exists>r. build h w = Inr r))"
proof -
  have c: "\<exists>m. build h w = Inl (CircularDependency m) \<and> on_cycle (nodeDependencies w) m"
    if "size_of w \<noteq> 0" "truthy_js h \<longrightarrow> is_function h" "has_cycle w"
  proof -
    from topologicalSort_cyclic[OF that(3)] obtain e where e: "topologicalSort w = Inl e"
      by (cases "topologicalSort w") auto
    from topologicalSort_error[OF e] e that(1,2) show ?thesis
      by (auto simp: build_def)
  qed
  have d: "\<exists>r. build h w = Inr r"
    if "size_of w \<noteq> 0" "truthy_js h \<longrightarrow> is_function h" "\<not> has_cycle w"
  proof (cases "topologicalSort w")
    case (Inl e)
    from topologicalSort_error[OF Inl] that(3) show ?thesis by blast
  next
    case (Inr w')
    with that(1,2) show ?thesis by (auto simp: build_def)
  qed
  from c d show ?thesis by (auto simp: build_def)
qed

lemma wf_ABCD_eval:
  "map fst (nodes wf_ABCD) = [''A'', ''B'', ''C'', ''D'']"
  "nodeDependencies wf_ABCD = [(''B'', [''A'']), (''C'', [''A'']), (''D'', [''B'', ''C''])]"
  "topologicalOrder wf_ABCD = []"
  "contextValueOrFactory wf_ABCD = Val VUndefined"
  by (simp_all add: wf_ABCD_def wf_AB_def wf_A_def opts_A_def opts_B_def opts_C_def opts_D_def
      plain_options_def addNode_def new_Node_def empty_Workflow_def has_node_def
      listed_dependencies_def dm_add_def)


lemma sort_ABCD:
  "sort_loop [(''B'', [''A'']), (''C'', [''A'']), (''D'', [''B'', ''C''])]
      [''A'', ''B'', ''C'', ''D''] ([], []) =
   Inr ([''D'', ''C'', ''B'', ''A''], [''A'', ''B'', ''C'', ''D''])"
  by (simp add: visit.simps dm_get_def)

lemma build_ABCD: "build (Val VUndefined) wf_ABCD = Inr runner_ABCD"
proof -
  have "size_of wf_ABCD = length (map fst (nodes wf_ABCD))" by (simp add: size_of_def)
  then have sz: "size_of wf_ABCD = 4" by (simp add: wf_ABCD_eval)
  have "topologicalSort wf_ABCD = Inr (wf_ABCD\<lparr>topologicalOrder := [''A'', ''B'', ''C'', ''D'']\<rparr>)"
    unfolding topologicalSort_def wf_ABCD_eval sort_ABCD by simp
  with sz show ?thesis by (simp add: build_def runner_ABCD_def wf_ABCD_eval)
qed

theorem build_topological_order_witness:
  "build (Val VUndefined) wf_ABCD = Inr runner_ABCD \<and>
   topologicalOrder wf_ABCD = [] \<and>
   r_topologicalOrder runner_ABCD = [''A'', ''B'', ''C'', ''D''] \<and>
   count_list (r_topologicalOrder runner_ABCD) ''D'' = 1 \<and>
   index_of (r_topologicalOrder runner_ABCD) ''B'' < index_of (r_topologicalOrder runner_ABCD) ''D''"
proof -
  have p: "r_topologicalOrder runner_ABCD = [''A'', ''B'', ''C'', ''D'']"
    by (simp add: runner_ABCD_def)
  have d: "''D'' \<in> fst ` set (nodes wf_ABCD)"
  proof -
    have "''D'' \<in> set (map fst (nodes wf_ABCD))" by (simp add: wf_ABCD_eval)
    then show ?thesis by simp
  qed
  have e: "''B'' \<in> set (dm_get (nodeDependencies wf_ABCD) ''D'')"
    by (simp add: wf_ABCD_eval dm_get_def)
  have dn: "''D'' \<in> set (r_topologicalOrder runner_ABCD)"
    by (simp add: p)
  from build_topological_order[OF build_ABCD wf_ABCD_eval(3)] have
    "\<forall>k \<in> fst ` set (nodes wf_ABCD). count_list (r_topologicalOrder runner_ABCD) k = 1"
    and "\<forall>n \<in> set (r_topologicalOrder runner_ABCD).
        \<forall>d \<in> set (dm_get (nodeDependencies wf_ABCD) n).
        d \<in> set (r_topologicalOrder runner_ABCD) \<and>
        index_of (r_topologicalOrder runner_ABCD) d < index_of (r_topologicalOrder runner_ABCD) n"
    by blast+
  from this(1)[rule_format, OF d] this(2)[rule_format, OF dn e] p build_ABCD wf_ABCD_eval(3)
  show ?thesis by simp
qed

lemma wf_A_eval:
  "nodes wf_A = [(''A'', \<lparr>options = opts_A, node_retryPolicy = default_policy, status = Pending\<rparr>)]"
  "nodeDependencies wf_A = []" "topologicalOrder wf_A = []"
  "contextValueOrFactory wf_A = Val VUndefined"
  by (simp_all add: wf_A_def opts_A_def plain_options_def addNode_def new_Node_def
      empty_Workflow_def has_node_def listed_dependencies_def)

text \<open>
  C7 as stated says that \<open>build\<close> throws when a supplied hook is not a function. The
  guard is \<^verbatim>\<open>onNodesCompleted && typeof onNodesCompleted !== "function"\<close>: given the
  number 0 as hook, \<open>build\<close> returns a runner.
\<close>

theorem build_falsy_hook_counterexample:
  "size_of wf_A \<noteq> 0 \<and>
   \<not> is_function (Val (VNum (Finite 0)) :: completion_hook js) \<and>
   build (Val (VNum (Finite 0))) wf_A = Inr runner_A_zero_hook"
  by (simp add: build_def size_of_def wf_A_eval topologicalSort_def visit.simps dm_get_def
      runner_A_zero_hook_def)

theorem build_errors_witness:
  "size_of wf_cyclic \<noteq> 0 \<and> has_cycle wf_cyclic \<and>
   build (Val VUndefined) wf_cyclic = Inl (CircularDependency ''a'') \<and>
   on_cycle (nodeDependencies wf_cyclic) ''a'' \<and>
   build (Val VUndefined) empty_Workflow = Inl NoNodesAdded"
proof -
  have sz: "size_of wf_cyclic \<noteq> 0" by (simp add: size_of_def wf_cyclic_def)
  have ab: "(''a'', ''b'') \<in> dep_rel (nodeDependencies wf_cyclic)"
    and ba: "(''b'', ''a'') \<in> dep_rel (nodeDependencies wf_cyclic)"
    by (simp_all add: dep_rel_def wf_cyclic_def dm_get_def)
  then have aa: "(''a'', ''a'') \<in> (dep_rel (nodeDependencies wf_cyclic))\<^sup>+"
    by (meson trancl.intros)
  have "''a'' \<in> fst ` set (nodes wf_cyclic)" by (simp add: wf_cyclic_def)
  with aa have cyc: "has_cycle wf_cyclic"
    unfolding has_cycle_def on_cycle_def by blast
  have h: "truthy_js (Val VUndefined :: completion_hook js) \<longrightarrow> is_function (Val VUndefined :: completion_hook js)"
    by simp
  have ev: "build (Val VUndefined) wf_cyclic = Inl (CircularDependency ''a'')"
    by (simp add: build_def size_of_def wf_cyclic_def topologicalSort_def visit.simps dm_get_def)
  have e0: "size_of empty_Workflow = 0" by (simp add: size_of_def empty_Workflow_def)
  from build_errors[of wf_cyclic "Val VUndefined"] sz h cyc obtain m where
    "build (Val VUndefined) wf_cyclic = Inl (CircularDependency m)"
    "on_cycle (nodeDependencies wf_cyclic) m"
    by blast
  moreover from build_errors[of empty_Workflow "Val VUndefined"] e0
  have "build (Val VUndefined) empty_Workflow = Inl NoNodesAdded" by blast
  ultimately show ?thesis using sz cyc ev by simp
qed

text \<open>
  C5 as stated is about every \<open>build\<close>. The order list belongs to the builder and is
  never emptied: a second \<open>build\<close> of the same builder pushes every node again, and the
  runner it returns has an order list that holds \<open>A\<close> twice.
\<close>

theorem second_build_counterexample:
  "build (Val VUndefined) wf_A = Inr runner_A \<and>
   topologicalSort wf_A = Inr wf_A_built \<and>
   build (Val VUndefined) wf_A_built = Inr runner_A_again \<and>
   r_topologicalOrder runner_A_again = [''A'', ''A''] \<and>
   ''A'' \<in> fst ` set (nodes wf_A_built) \<and>
   count_list (r_topologicalOrder runner_A_again) ''A'' = 2"
  by (simp add: build_def size_of_def wf_A_eval topologicalSort_def visit.simps dm_get_def
      runner_A_def runner_A_again_def wf_A_built_def)

section \<open>Sets and maps as lists\<close>

lemma set_set_add [simp]: "set (set_add x xs) = insert x (set xs)"
  by (auto simp: set_add_def)

lemma distinct_set_add [simp]: "distinct (set_add x xs) = distinct xs"
  by (auto simp: set_add_def)

lemma length_set_add: "length (set_add x xs) = (if x \<in> set xs then length xs else Suc (length xs))"
  by (simp add: set_add_def)

lemma new_Set_aux:
  "set (foldl (\<lambda>acc x. set_add x acc) acc xs) = set acc \<union> set xs \<and>
   (distinct acc \<longrightarrow> distinct (foldl (\<lambda>acc x. set_add x acc) acc xs))"
  by (induction xs arbitrary: acc) auto

lemma set_new_Set [simp]: "set (new_Set xs) = set xs"
  using new_Set_aux[of "[]" xs] by (simp add: new_Set_def)

lemma distinct_new_Set [simp]: "distinct (new_Set xs)"
  using new_Set_aux[of "[]" xs] by (simp add: new_Set_def)

lemma map_of_del_key [simp]:
  "map_of (del_key k kvs) k' = (if k' = k then None else map_of kvs k')"
  by (induction kvs) (auto simp: del_key_def)

lemma keys_del_key [simp]: "fst ` set (del_key k kvs) = fst ` set kvs - {k}"
  by (auto simp: del_key_def)

lemma distinct_del_key [simp]: "distinct (map fst kvs) \<Longrightarrow> distinct (map fst (del_key k kvs))"
  by (simp add: del_key_def distinct_map_filter)

lemma set_del_key: "set (del_key k kvs) = {kv \<in> set kvs. fst kv \<noteq> k}"
  by (auto simp: del_key_def)

lemma map_of_set_key [simp]:
  "map_of (set_key kvs k v) k' = (if k' = k then Some v else map_of kvs k')"
  by (induction kvs k v rule: set_key.induct) auto

lemma keys_set_key [simp]: "fst ` set (set_key kvs k v) = insert k (fst ` set kvs)"
  by (induction kvs k v rule: set_key.induct) auto

lemma map_fst_set_key:
  "map fst (set_key kvs k v) = (if k \<in> fst ` set kvs then map fst kvs else map fst kvs @ [k])"
  by (induction kvs k v rule: set_key.induct) auto

lemma distinct_set_key [simp]:
  "distinct (map fst (set_key kvs k v)) = distinct (map fst kvs)"
  by (auto simp: map_fst_set_key)

lemma set_key_nonempty [simp]: "set_key kvs k v \<noteq> []"
  by (cases kvs) (auto split: if_splits)

lemma map_fst_put_node [simp]: "map fst (put_node k n ns) = map fst ns"
  by (induction ns) (auto simp: put_node_def)

lemma keys_put_node [simp]: "fst ` set (put_node k n ns) = fst ` set ns"
  using map_fst_put_node[of k n ns] by (metis list.set_map)

lemma length_put_node [simp]: "length (put_node k n ns) = length ns"
  by (simp add: put_node_def)

lemma map_fst_launch_nodes [simp]: "map fst (launch_nodes c ids ns) = map fst ns"
  by (induction c ids ns rule: launch_nodes.induct) (auto split: option.splits)

lemma keys_launch_nodes [simp]: "fst ` set (launch_nodes c ids ns) = fst ` set ns"
  using map_fst_launch_nodes[of c ids ns] by (metis list.set_map)

lemma map_of_put_node:
  "map_of (put_node k n ns) k' =
     (if k' = k \<and> k \<in> fst ` set ns then Some n else map_of ns k')"
  by (induction ns) (force simp: put_node_def)+

lemma keys_launch [simp]: "fst ` set (launch c ids running) = set ids \<union> fst ` set running"
  by (induction c ids running rule: launch.induct) auto

lemma map_of_launch:
  "map_of (launch c ids running) k = (if k \<in> set ids then Some (Started c) else map_of running k)"
  by (induction c ids running rule: launch.induct) auto

lemma distinct_launch [simp]:
  "distinct (map fst (launch c ids running)) = distinct (map fst running)"
  by (induction c ids running rule: launch.induct) auto

lemma launch_Nil_iff [simp]: "(launch c ids running = []) = (ids = [] \<and> running = [])"
  by (induction c ids running rule: launch.induct) auto

lemma set_rescan:
  "set (rescan deps s ns ready) =
     set ready \<union> {i. \<exists>n. (i, n) \<in> set ns \<and> i \<notin> set (rs_completed s) \<and>
                     i \<notin> fst ` set (rs_running s) \<and> canRun deps s n}"
  by (induction deps s ns ready rule: rescan.induct) auto

lemma distinct_rescan [simp]: "distinct (rescan deps s ns ready) = distinct ready"
  by (induction deps s ns ready rule: rescan.induct) auto

lemma map_of_set_key_ctx: "map_of (spread c [(k, v)]) = (map_of c)(k \<mapsto> v)"
  by (auto simp: fun_eq_iff)

lemma keys_spread1: "fst ` set (spread c [(k, v)]) = insert k (fst ` set c)"
  by simp

lemma spread_append: "spread c (xs @ ys) = spread (spread c xs) ys"
  by (induction c xs rule: spread.induct) auto

lemma map_of_spread: "map_of (spread c upd) = map_of c ++ map_of (rev upd)"
proof (induction c upd rule: spread.induct)
  case (1 obj)
  show ?case by simp
next
  case (2 obj k v upd)
  show ?case
    by (auto simp: 2 fun_eq_iff map_add_def split: option.splits)
qed

section \<open>run keeps the options of the node\<close>

lemma run_loop_options:
  assumes "run_loop n c k a = Some res"
  shows "options (fst res) = options n \<and> node_retryPolicy (fst res) = node_retryPolicy n"
proof (rule run_loop.raw_induct[where P = "\<lambda>n c k a res.
    options (fst res) = options n \<and> node_retryPolicy (fst res) = node_retryPolicy n", OF _ assms])
  fix f :: "Node \<Rightarrow> ctx \<Rightarrow> nat \<Rightarrow> nat \<Rightarrow> (Node \<times> effect list \<times> jsval outcome) option"
  fix n :: Node and c k a res
  assume IH: "\<And>(n :: Node) c k a res. f n c k a = Some res \<Longrightarrow>
      options (fst res) = options n \<and> node_retryPolicy (fst res) = node_retryPolicy n"
  assume body: "(if a < double_succ (retries_of (maxRetries (node_retryPolicy n))) then
        (case execute (options n) k c of
           Inr result \<Rightarrow> Some (n\<lparr>status := Completed\<rparr>, [CallExecute k], Inr result)
         | Inl err \<Rightarrow>
             if a = retries_of (maxRetries (node_retryPolicy n)) then
               Some (last_attempt_failed n c k err)
             else if \<not> has_string_form err then
               Some (n\<lparr>status := Running\<rparr>, [CallExecute k], Inl type_error)
             else
               Option.bind
                 (f (n\<lparr>status := Running\<rparr>) c (k + 1) (double_succ a))
                 (\<lambda>res. Some (fst res,
                         CallExecute k # Wait (retryDelayMs (node_retryPolicy n)) # fst (snd res),
                         snd (snd res))))
      else Some (n, [], Inl (VError ''Unexpected end of run method''))) = Some res"
  show "options (fst res) = options n \<and> node_retryPolicy (fst res) = node_retryPolicy n"
  proof (cases "execute (options n) k c")
    case (Inr v)
    with body show ?thesis by (auto split: if_splits)
  next
    case (Inl e)
    show ?thesis
    proof (cases "a < double_succ (retries_of (maxRetries (node_retryPolicy n))) \<and>
        a \<noteq> retries_of (maxRetries (node_retryPolicy n)) \<and> has_string_form e")
      case True
      with body Inl obtain res' where
        r: "f (n\<lparr>status := Running\<rparr>) c (k + 1) (double_succ a) = Some res'"
        and res: "res = (fst res', CallExecute k # Wait (retryDelayMs (node_retryPolicy n)) # fst (snd res'), snd (snd res'))"
        by (auto simp: bind_eq_Some_conv)
      from IH[OF r] res show ?thesis by simp
    next
      case False
      with body Inl show ?thesis
        by (auto simp: last_attempt_failed_facts split: if_splits)
    qed
  qed
qed

lemma run_options:
  "run n c = Some res \<Longrightarrow> options (fst res) = options n \<and> node_retryPolicy (fst res) = node_retryPolicy n"
  using run_loop_options[of n c 0 0 res]
  by (auto simp: run_def split: sum.splits bool.splits)

lemma run_node_id: "run n c = Some res \<Longrightarrow> node_id (fst res) = node_id n"
  by (simp add: node_id_def run_options)

lemma run_begin_options [simp]:
  "options (run_begin n c) = options n" "node_retryPolicy (run_begin n c) = node_retryPolicy n"
  by (simp_all add: run_begin_def split: sum.splits bool.splits)

lemma run_begin_node_id [simp]: "node_id (run_begin n c) = node_id n"
  by (simp add: node_id_def)

section \<open>Runs as lists of events\<close>

lemma exec_append:
  "exec r (es @ es') s = (case exec r es s of None \<Rightarrow> None | Some s' \<Rightarrow> exec r es' s')"
  by (induction es arbitrary: s) (auto split: option.splits)

lemma reaches_Nil [simp]: "reaches r f [] s = (s = start r f)"
  by (auto simp: reaches_def)

lemma reaches_snoc:
  "reaches r f (es @ [e]) s' = (\<exists>s. reaches r f es s \<and> step r e s = Some s')"
  by (auto simp: reaches_def exec_append split: option.splits)

lemma reaches_induct [consumes 1, case_names start step]:
  assumes "reaches r f es s"
    and "P (start r f)"
    and "\<And>es e s s'. reaches r f es s \<Longrightarrow> P s \<Longrightarrow> step r e s = Some s' \<Longrightarrow> P s'"
  shows "P s"
  using assms(1)
proof (induction es arbitrary: s rule: rev_induct)
  case Nil
  with assms(2) show ?case by simp
next
  case (snoc e es)
  then obtain s0 where "reaches r f es s0" "step r e s0 = Some s"
    by (auto simp: reaches_snoc)
  with snoc.IH[of s0] assms(3) show ?case by blast
qed

section \<open>The events, case by case\<close>

lemma canRun_cong:
  assumes "rs_nodes s = rs_nodes s'" "rs_completed s = rs_completed s'"
  shows "canRun deps s n = canRun deps s' n"
  unfolding canRun_def assms ..

lemma finally_block_fields [simp]:
  "rs_context (finally_block deps n s) = rs_context s"
  "rs_queue (finally_block deps n s) = rs_queue s"
  "rs_nodes (finally_block deps n s) = rs_nodes s"
  "rs_completed (finally_block deps n s) = rs_completed s"
  "rs_errors (finally_block deps n s) = rs_errors s"
  "rs_main (finally_block deps n s) = rs_main s"
  "rs_runs (finally_block deps n s) = rs_runs s"
  "rs_applied (finally_block deps n s) = rs_applied s"
  "rs_events (finally_block deps n s) = rs_events s"
  "rs_hook_calls (finally_block deps n s) = rs_hook_calls s"
  "rs_running (finally_block deps n s) = del_key n (rs_running s)"
  by (simp_all add: finally_block_def Let_def)

lemma finally_block_ready:
  "set (rs_readyNodes (finally_block deps n s)) =
     set (rs_readyNodes s) \<union>
     {i. \<exists>nd. (i, nd) \<in> set (rs_nodes s) \<and> i \<notin> set (rs_completed s) \<and>
              i \<notin> fst ` set (rs_running s) - {n} \<and> canRun deps s nd}"
  by (auto simp: finally_block_def Let_def set_rescan
      canRun_cong[of "s\<lparr>rs_running := del_key n (rs_running s)\<rparr>" s])

lemma finally_block_ready_distinct [simp]:
  "distinct (rs_readyNodes (finally_block deps n s)) = distinct (rs_readyNodes s)"
  by (simp add: finally_block_def Let_def)

lemma promise_settled_fields [simp]:
  "rs_context (promise_settled s) = rs_context s"
  "rs_queue (promise_settled s) = rs_queue s"
  "rs_nodes (promise_settled s) = rs_nodes s"
  "rs_completed (promise_settled s) = rs_completed s"
  "rs_errors (promise_settled s) = rs_errors s"
  "rs_runs (promise_settled s) = rs_runs s"
  "rs_applied (promise_settled s) = rs_applied s"
  "rs_events (promise_settled s) = rs_events s"
  "rs_hook_calls (promise_settled s) = rs_hook_calls s"
  "rs_running (promise_settled s) = rs_running s"
  "rs_readyNodes (promise_settled s) = rs_readyNodes s"
  "rs_main (promise_settled s) = (if rs_main s = Waiting then Looping else rs_main s)"
  by (simp_all add: promise_settled_def)

lemma exit_run_fields [simp]:
  "rs_context (exit_run h s) = rs_context s"
  "rs_queue (exit_run h s) = rs_queue s"
  "rs_nodes (exit_run h s) = rs_nodes s"
  "rs_completed (exit_run h s) = rs_completed s"
  "rs_errors (exit_run h s) = rs_errors s"
  "rs_runs (exit_run h s) = rs_runs s"
  "rs_applied (exit_run h s) = rs_applied s"
  "rs_events (exit_run h s) = rs_events s"
  "rs_running (exit_run h s) = rs_running s"
  "rs_readyNodes (exit_run h s) = rs_readyNodes s"
  by (simp_all add: exit_run_def Let_def split: js.splits sum.splits)

lemma exit_run_finished [simp]: "finished (exit_run h s)"
  by (simp add: exit_run_def Let_def finished_def split: js.splits sum.splits)

lemma commit_event_fields [simp]:
  "ev_context (commit_event s n ph) = rs_context s" "ev_nodeId (commit_event s n ph) = n"
  by (simp_all add: commit_event_def split: phase.splits)

lemma step_cases [consumes 1, case_names launch missing exit settle applied commit_hook commit_nohook finalize]:
  assumes "step r e s = Some s'"
  obtains
    (launch) "e = MainStep" "rs_main s = Looping" "length (rs_completed s) < length (rs_nodes s)"
      "\<forall>i \<in> set (rs_readyNodes s). map_of (rs_nodes s) i \<noteq> None"
      "rs_readyNodes s \<noteq> [] \<or> rs_running s \<noteq> []"
      "s' = s\<lparr>rs_running := launch (rs_context s) (rs_readyNodes s) (rs_running s),
               rs_nodes := launch_nodes (rs_context s) (rs_readyNodes s) (rs_nodes s),
               rs_readyNodes := [], rs_main := Waiting\<rparr>"
  | (missing) i where "e = MainStep" "rs_main s = Looping"
      "s' = s\<lparr>rs_main := Rejected (RejError (NodeNotFound i))\<rparr>"
  | (exit) "e = MainStep" "rs_main s = Looping"
      "length (rs_nodes s) \<le> length (rs_completed s) \<or> (rs_readyNodes s = [] \<and> rs_running s = [])"
      "s' = exit_run (r_onNodesCompleted r) (s\<lparr>rs_readyNodes := []\<rparr>) \<or>
       s' = exit_run (r_onNodesCompleted r) s"
      "rs_readyNodes s' = [] \<or> length (rs_nodes s) \<le> length (rs_completed s)"
  | (settle) n c node node' effs out where "e = Settle n" "\<not> finished s"
      "map_of (rs_running s) n = Some (Started c)" "map_of (rs_nodes s) n = Some node"
      "run node c = Some (node', effs, out)"
      "s' = s\<lparr>rs_nodes := put_node n node' (rs_nodes s),
               rs_runs := rs_runs s @ [(n, c, effs, out)],
               rs_queue := (case out of Inr v \<Rightarrow> rs_queue s @ [(n, v)] | Inl e \<Rightarrow> rs_queue s),
               rs_running := set_key (rs_running s) n
                  (case out of Inr v \<Rightarrow> Updating v | Inl e \<Rightarrow> Thrown e)\<rparr>"
  | (applied) n v rest where "e = Apply" "\<not> finished s" "rs_queue s = (n, v) # rest"
      "s' = s\<lparr>rs_context := spread (rs_context s) [(n, v)],
               rs_applied := rs_applied s @ [(n, v)],
               rs_queue := rest,
               rs_running := set_key (rs_running s) n (Updated v)\<rparr>"
  | (commit_hook) n ph node where "e = Commit n" "\<not> finished s"
      "map_of (rs_running s) n = Some ph" "committable ph" "map_of (rs_nodes s) n = Some node"
      "onCompleted (options node) \<noteq> None"
      "s' = s\<lparr>rs_errors := errors_after s n ph,
               rs_completed := set_add n (rs_completed s),
               rs_events := rs_events s @ [commit_event s n ph],
               rs_running := set_key (rs_running s) n Hooking\<rparr>"
  | (commit_nohook) n ph node where "e = Commit n" "\<not> finished s"
      "map_of (rs_running s) n = Some ph" "committable ph" "map_of (rs_nodes s) n = Some node"
      "onCompleted (options node) = None"
      "s' = promise_settled (finally_block (r_nodeDependencies r) n
              (s\<lparr>rs_errors := errors_after s n ph,
                 rs_completed := set_add n (rs_completed s)\<rparr>))"
  | (finalize) n where "e = Finalize n" "\<not> finished s"
      "map_of (rs_running s) n = Some Hooking"
      "s' = promise_settled (finally_block (r_nodeDependencies r) n s)"
proof -
  from assms have nf: "\<not> finished s" by (auto simp: step_def split: if_splits)
  show thesis
  proof (cases e)
    case MainStep
    with assms nf have ms: "main_step r s = Some s'" by (simp add: step_def)
    then have lo: "rs_main s = Looping" by (auto simp: main_step_def split: if_splits)
    show ?thesis
    proof (cases "length (rs_completed s) < length (rs_nodes s)")
      case False
      with ms lo have "s' = exit_run (r_onNodesCompleted r) s" by (simp add: main_step_def)
      with False lo MainStep show ?thesis by (intro exit) auto
    next
      case lt: True
      show ?thesis
      proof (cases "find (\<lambda>nodeId. map_of (rs_nodes s) nodeId = None) (rs_readyNodes s)")
        case (Some i)
        with ms lo lt have "s' = s\<lparr>rs_main := Rejected (RejError (NodeNotFound i))\<rparr>"
          by (simp add: main_step_def)
        with MainStep lo show ?thesis by (intro missing)
      next
        case None
        then have all: "\<forall>i \<in> set (rs_readyNodes s). map_of (rs_nodes s) i \<noteq> None"
          by (simp add: find_None_iff)
        show ?thesis
        proof (cases "rs_readyNodes s = [] \<and> rs_running s = []")
          case True
          with ms lo lt None have "s' = exit_run (r_onNodesCompleted r)
              (s\<lparr>rs_running := [], rs_nodes := rs_nodes s, rs_readyNodes := []\<rparr>)"
            by (simp add: main_step_def Let_def)
          moreover have "s\<lparr>rs_running := [], rs_nodes := rs_nodes s, rs_readyNodes := []\<rparr> = s\<lparr>rs_readyNodes := []\<rparr>"
            using True by simp
          ultimately have "s' = exit_run (r_onNodesCompleted r) (s\<lparr>rs_readyNodes := []\<rparr>)" by simp
          with True lo MainStep show ?thesis by (intro exit) auto
        next
          case False
          with ms lo lt None have
            "s' = s\<lparr>rs_running := launch (rs_context s) (rs_readyNodes s) (rs_running s),
               rs_nodes := launch_nodes (rs_context s) (rs_readyNodes s) (rs_nodes s),
               rs_readyNodes := [], rs_main := Waiting\<rparr>"
            by (auto simp: main_step_def Let_def)
          with False lo lt all MainStep show ?thesis by (intro launch) auto
        qed
      qed
    qed
  next
    case (Settle n)
    with assms nf have st: "settle n s = Some s'" by (simp add: step_def)
    then obtain c node where a: "map_of (rs_running s) n = Some (Started c)"
      "map_of (rs_nodes s) n = Some node"
      by (auto simp: settle_def split: option.splits phase.splits)
    from st a obtain node' effs out where r: "run node c = Some (node', effs, out)"
      by (cases "run node c") (auto simp: settle_def)
    with st a have "s' = s\<lparr>rs_nodes := put_node n node' (rs_nodes s),
               rs_runs := rs_runs s @ [(n, c, effs, out)],
               rs_queue := (case out of Inr v \<Rightarrow> rs_queue s @ [(n, v)] | Inl e \<Rightarrow> rs_queue s),
               rs_running := set_key (rs_running s) n
                  (case out of Inr v \<Rightarrow> Updating v | Inl e \<Rightarrow> Thrown e)\<rparr>"
      by (cases out) (auto simp: settle_def)
    with Settle nf a r show ?thesis by (intro settle)
  next
    case Apply
    with assms nf have "apply_next s = Some s'" by (simp add: step_def)
    then obtain n v rest where "rs_queue s = (n, v) # rest"
      "s' = s\<lparr>rs_context := spread (rs_context s) [(n, v)],
               rs_applied := rs_applied s @ [(n, v)],
               rs_queue := rest,
               rs_running := set_key (rs_running s) n (Updated v)\<rparr>"
      by (auto simp: apply_next_def apply_update_def split: list.splits)
    with Apply nf show ?thesis by (intro applied)
  next
    case (Commit n)
    with assms nf have cm: "commit (r_nodeDependencies r) n s = Some s'" by (simp add: step_def)
    then obtain ph node where a: "map_of (rs_running s) n = Some ph" "committable ph"
      "map_of (rs_nodes s) n = Some node"
      by (auto simp: commit_def committable_def split: option.splits phase.splits)
    show ?thesis
    proof (cases "onCompleted (options node)")
      case None
      with cm a have "s' = promise_settled (finally_block (r_nodeDependencies r) n
              (s\<lparr>rs_errors := errors_after s n ph,
                 rs_completed := set_add n (rs_completed s)\<rparr>))"
        by (cases ph) (auto simp: commit_def committable_def after_hook_def errors_after_def Let_def)
      with Commit nf a None show ?thesis by (intro commit_nohook)
    next
      case (Some h)
      with cm a have
        "s' = s\<lparr>rs_errors := errors_after s n ph,
               rs_completed := set_add n (rs_completed s),
               rs_events := rs_events s @ [commit_event s n ph],
               rs_running := set_key (rs_running s) n Hooking\<rparr>"
        by (cases ph)
           (auto simp: commit_def committable_def after_hook_def errors_after_def Let_def
              commit_event_def)
      with Commit nf a Some show ?thesis by (intro commit_hook) auto
    qed
  next
    case (Finalize n)
    with assms nf have "finalize (r_nodeDependencies r) n s = Some s'" by (simp add: step_def)
    then have "map_of (rs_running s) n = Some Hooking"
      "s' = promise_settled (finally_block (r_nodeDependencies r) n s)"
      by (auto simp: finalize_def split: option.splits phase.splits)
    with Finalize nf show ?thesis by (intro finalize)
  qed
qed

lemma rejected_state_fields [simp]:
  "rs_context (rejected_state f e) = fl_context f"
  "rs_queue (rejected_state f e) = []"
  "rs_nodes (rejected_state f e) = fl_nodes f"
  "rs_completed (rejected_state f e) = []"
  "rs_running (rejected_state f e) = []"
  "rs_readyNodes (rejected_state f e) = []"
  "rs_errors (rejected_state f e) = fl_errors f"
  "rs_main (rejected_state f e) = Rejected e"
  "rs_runs (rejected_state f e) = []"
  "rs_applied (rejected_state f e) = []"
  "rs_events (rejected_state f e) = []"
  "rs_hook_calls (rejected_state f e) = []"
  by (simp_all add: rejected_state_def)

lemma start_fields [simp]:
  "rs_queue (start r f) = []"
  "rs_nodes (start r f) = fl_nodes f"
  "rs_completed (start r f) = []"
  "rs_running (start r f) = []"
  "rs_errors (start r f) = fl_errors f"
  "rs_runs (start r f) = []"
  "rs_applied (start r f) = []"
  "rs_events (start r f) = []"
  "rs_hook_calls (start r f) = []"
  by (simp_all add: start_def split: sum.splits option.splits)

lemma start_ready_subset: "set (rs_readyNodes (start r f)) \<subseteq> fst ` set (fl_nodes f)"
  by (auto simp: start_def find_None_iff split: sum.splits option.splits
      dest!: map_of_SomeD intro: rev_image_eqI)

lemma start_ready_distinct [simp]: "distinct (rs_readyNodes (start r f))"
  by (simp add: start_def split: sum.splits option.splits)

lemma start_main: "rs_main (start r f) \<noteq> Waiting"
  by (simp add: start_def split: sum.splits option.splits)

lemma exit_run_main [simp]: "rs_main (exit_run h s) \<noteq> Waiting" "rs_main (exit_run h s) \<noteq> Looping"
  by (simp_all add: exit_run_def Let_def split: js.splits sum.splits)

lemma map_of_keys: "map_of kvs k = Some v \<Longrightarrow> k \<in> fst ` set kvs"
  by (metis domI dom_map_of_conv_image_fst)

lemma keys_map_of: "k \<in> fst ` set kvs \<Longrightarrow> \<exists>v. map_of kvs k = Some v"
  by (auto dest: weak_map_of_SomeI)

lemma keys_iff_phase: "(n \<in> fst ` set (rs_running s)) = (phase_of s n \<noteq> None)"
  by (metis map_of_eq_None_iff phase_of_def)

lemma phase_of_update [simp]:
  "phase_of (rs_running_update f s) m = map_of (f (rs_running s)) m"
  "phase_of (rs_context_update f1 s) m = phase_of s m"
  "phase_of (rs_queue_update f2 s) m = phase_of s m"
  "phase_of (rs_nodes_update f3 s) m = phase_of s m"
  "phase_of (rs_completed_update f4 s) m = phase_of s m"
  "phase_of (rs_readyNodes_update f5 s) m = phase_of s m"
  "phase_of (rs_errors_update f6 s) m = phase_of s m"
  "phase_of (rs_main_update f7 s) m = phase_of s m"
  "phase_of (rs_runs_update f8 s) m = phase_of s m"
  "phase_of (rs_applied_update f9 s) m = phase_of s m"
  "phase_of (rs_events_update f10 s) m = phase_of s m"
  "phase_of (rs_hook_calls_update f11 s) m = phase_of s m"
  "phase_of (promise_settled s) m = phase_of s m"
  "phase_of (finally_block deps n s) m = (if m = n then None else phase_of s m)"
  "phase_of (exit_run h s) m = phase_of s m"
  by (simp_all add: phase_of_def)

lemma in_ready_after:
  "(m \<in> set (rs_readyNodes (finally_block deps n s))) =
     (m \<in> set (rs_readyNodes s) \<or>
      (m \<notin> set (rs_completed s) \<and> (m = n \<or> phase_of s m = None) \<and>
       (\<exists>nd. (m, nd) \<in> set (rs_nodes s) \<and> canRun deps s nd)))"
proof -
  have "(m \<notin> fst ` set (rs_running s) - {n}) = (m = n \<or> phase_of s m = None)"
    using keys_iff_phase[of m s] by blast
  then show ?thesis unfolding finally_block_ready Un_iff mem_Collect_eq by auto
qed

lemma run_inv_start: "run_inv (start r f)"
  using start_ready_subset[of r f] start_main[of r f]
  by (auto simp: run_inv_def global_inv_def node_inv_def phase_of_def)

lemma committable_simps [simp]:
  "committable (Updated v)" "committable (Thrown err)"
  "\<not> committable (Started c)" "\<not> committable (Updating v)" "\<not> committable Hooking"
  by (simp_all add: committable_def)

lemma node_invD:
  assumes "node_inv s n"
  shows "n \<in> set (rs_readyNodes s) \<Longrightarrow> phase_of s n = None"
    and "n \<in> set (rs_readyNodes s) \<Longrightarrow> n \<notin> set (rs_completed s)"
    and "phase_of s n = Some ph \<Longrightarrow> n \<in> fst ` set (rs_nodes s)"
    and "n \<in> set (rs_completed s) \<Longrightarrow> n \<in> fst ` set (rs_nodes s)"
    and "n \<in> set (rs_readyNodes s) \<Longrightarrow> n \<in> fst ` set (rs_nodes s)"
    and "phase_of s n = Some ph \<Longrightarrow> (n \<in> set (rs_completed s)) = (ph = Hooking)"
    and "((n, v) \<in> set (rs_queue s)) = (phase_of s n = Some (Updating v))"
    and "(n, v) \<in> set (rs_applied s) \<Longrightarrow> n \<in> set (rs_completed s) \<or> phase_of s n = Some (Updated v)"
    and "phase_of s n = Some (Updated v) \<Longrightarrow> (n, v) \<in> set (rs_applied s)"
  using assms unfolding node_inv_def by blast+

lemma committed_facts:
  assumes "node_inv s n" "phase_of s n = Some ph" "committable ph"
  shows "n \<notin> set (rs_readyNodes s)" "n \<in> fst ` set (rs_nodes s)" "(n, v) \<notin> set (rs_queue s)"
    "n \<notin> set (rs_completed s)"
proof -
  show "n \<notin> set (rs_readyNodes s)" using node_invD(1)[OF assms(1)] assms(2) by auto
  show "n \<in> fst ` set (rs_nodes s)" using node_invD(3)[OF assms(1) assms(2)] .
  show "(n, v) \<notin> set (rs_queue s)"
    using node_invD(7)[OF assms(1), of v] assms(2,3) by auto
  show "n \<notin> set (rs_completed s)"
    using node_invD(6)[OF assms(1) assms(2)] assms(3) by auto
qed

lemma phase_fold [simp]: "map_of (rs_running s) m = phase_of s m"
  by (simp add: phase_of_def)

lemma node_inv_step:
  assumes "step r e s = Some s'" "run_inv s"
  shows "node_inv s' m"
  using assms(1)
proof (cases rule: step_cases)
  case launch
  from assms(2) have ni: "node_inv s m" by (simp add: run_inv_def)
  have f: "rs_readyNodes s' = []" "rs_completed s' = rs_completed s" "rs_queue s' = rs_queue s"
    "rs_applied s' = rs_applied s" "fst ` set (rs_nodes s') = fst ` set (rs_nodes s)"
    "phase_of s' m = (if m \<in> set (rs_readyNodes s) then Some (Started (rs_context s)) else phase_of s m)"
    by (simp_all add: launch(6) map_of_launch)
  show ?thesis
  proof (cases "m \<in> set (rs_readyNodes s)")
    case True
    with ni have "phase_of s m = None" "m \<notin> set (rs_completed s)" "m \<in> fst ` set (rs_nodes s)"
      "\<And>v. (m, v) \<notin> set (rs_queue s)" "\<And>v. (m, v) \<notin> set (rs_applied s)"
      unfolding node_inv_def by auto
    with True show ?thesis unfolding node_inv_def f by simp
  next
    case False
    with ni show ?thesis unfolding node_inv_def f by simp
  qed
next
  case (missing i)
  from assms(2) have "node_inv s m" by (simp add: run_inv_def)
  with missing show ?thesis by (simp add: node_inv_def)
next
  case exit
  from assms(2) have ni: "node_inv s m" by (simp add: run_inv_def)
  from exit(4) have f: "rs_completed s' = rs_completed s" "rs_queue s' = rs_queue s"
    "rs_applied s' = rs_applied s" "rs_nodes s' = rs_nodes s" "phase_of s' m = phase_of s m"
    by auto
  from exit(4) have "rs_readyNodes s' = [] \<or> rs_readyNodes s' = rs_readyNodes s" by auto
  then show ?thesis
  proof
    assume "rs_readyNodes s' = []"
    with ni show ?thesis unfolding node_inv_def f by simp
  next
    assume "rs_readyNodes s' = rs_readyNodes s"
    with ni show ?thesis unfolding node_inv_def f by simp
  qed
next
  case (settle n c node node' effs out)
  from assms(2) have "node_inv s m" "node_inv s n" by (simp_all add: run_inv_def)
  with settle(3) settle(6) show ?thesis
    by (cases out) (auto simp: node_inv_def map_of_launch)
next
  case (applied n v rest)
  from assms(2) have ni: "node_inv s m" "node_inv s n" and
    d: "distinct (map fst (rs_queue s) @ map fst (rs_applied s))"
    by (simp_all add: run_inv_def global_inv_def)
  from d applied(3) have nr: "\<And>w. (n, w) \<notin> set rest" "\<And>w. (n, w) \<notin> set (rs_applied s)"
    by (auto simp: rev_image_eqI)
  from ni(2) applied(3) have ph: "phase_of s n = Some (Updating v)"
    unfolding node_inv_def by (metis list.set_intros(1))
  from ni(1) applied(3) have mq: "\<And>w. m \<noteq> n \<Longrightarrow> ((m, w) \<in> set rest) = (phase_of s m = Some (Updating w))"
    by (auto simp: node_inv_def)
  show ?thesis
  proof (cases "m = n")
    case True
    with ni(2) ph nr applied(4) show ?thesis by (auto simp: node_inv_def)
  next
    case False
    with ni(1) mq applied(4) show ?thesis by (auto simp: node_inv_def)
  qed
next
  case (commit_hook n ph node)
  from assms(2) have ni: "node_inv s m" "node_inv s n" by (simp_all add: run_inv_def)
  from commit_hook(3) have ph: "phase_of s n = Some ph" by simp
  have f: "rs_readyNodes s' = rs_readyNodes s" "rs_completed s' = set_add n (rs_completed s)"
    "rs_queue s' = rs_queue s" "rs_applied s' = rs_applied s" "rs_nodes s' = rs_nodes s"
    "phase_of s' m = (if m = n then Some Hooking else phase_of s m)"
    by (simp_all add: commit_hook(7))
  show ?thesis
  proof (cases "m = n")
    case True
    note committed_facts[OF ni(2) ph commit_hook(4)]
    with True show ?thesis unfolding node_inv_def f by simp
  next
    case False
    with ni(1) show ?thesis unfolding node_inv_def f by simp
  qed
next
  case (commit_nohook n ph node)
  from assms(2) have ni: "node_inv s m" "node_inv s n" by (simp_all add: run_inv_def)
  from commit_nohook(3) have ph: "phase_of s n = Some ph" by simp
  let ?s1 = "s\<lparr>rs_errors := errors_after s n ph, rs_completed := set_add n (rs_completed s)\<rparr>"
  have f: "rs_completed s' = set_add n (rs_completed s)"
    "rs_queue s' = rs_queue s" "rs_applied s' = rs_applied s" "rs_nodes s' = rs_nodes s"
    "phase_of s' m = (if m = n then None else phase_of s m)"
    by (simp_all add: commit_nohook(7))
  have rd: "(m \<in> set (rs_readyNodes s')) =
     (m \<in> set (rs_readyNodes s) \<or>
      (m \<notin> set (rs_completed s) \<and> m \<noteq> n \<and> phase_of s m = None \<and>
       (\<exists>nd. (m, nd) \<in> set (rs_nodes s) \<and> canRun (r_nodeDependencies r) ?s1 nd)))"
    unfolding commit_nohook(7) by (auto simp: in_ready_after)
  show ?thesis
  proof (cases "m = n")
    case True
    note committed_facts[OF ni(2) ph commit_nohook(4)]
    with True show ?thesis unfolding node_inv_def f rd by simp
  next
    case False
    have "m \<in> fst ` set (rs_nodes s)" if "(m, nd) \<in> set (rs_nodes s)" for nd
      using that by (rule rev_image_eqI) simp
    with False ni(1) show ?thesis unfolding node_inv_def f rd by auto
  qed
next
  case (finalize n)
  from assms(2) have ni: "node_inv s m" "node_inv s n" by (simp_all add: run_inv_def)
  from finalize(3) have ph: "phase_of s n = Some Hooking" by simp
  show ?thesis
  proof (cases "m = n")
    case True
    with ni(2) ph finalize(4) show ?thesis
      by (auto simp: node_inv_def in_ready_after)
  next
    case False
    with ni(1) finalize(4) show ?thesis
      by (auto simp: node_inv_def in_ready_after intro: rev_image_eqI)
  qed
qed

lemma global_inv_step:
  assumes "step r e s = Some s'" "run_inv s"
  shows "global_inv s'"
  using assms(1)
proof (cases rule: step_cases)
  case launch
  from assms(2) have g: "global_inv s" by (simp add: run_inv_def)
  from launch(5) have "launch (rs_context s) (rs_readyNodes s) (rs_running s) \<noteq> []"
    by simp
  with g show ?thesis unfolding global_inv_def launch(6) by simp
next
  case (missing i)
  from assms(2) have g: "global_inv s" by (simp add: run_inv_def)
  then show ?thesis unfolding global_inv_def missing(3) by simp
next
  case exit
  from assms(2) have g: "global_inv s" by (simp add: run_inv_def)
  from exit(4) have f: "rs_completed s' = rs_completed s" "rs_queue s' = rs_queue s"
    "rs_applied s' = rs_applied s" "rs_main s' \<noteq> Waiting"
    by auto
  from exit(4) have "rs_readyNodes s' = [] \<or> rs_readyNodes s' = rs_readyNodes s" by auto
  with g f(4) show ?thesis unfolding global_inv_def f(1-3) by auto
next
  case (settle n c node node' effs out)
  from assms(2) have ni: "node_inv s n" and g: "global_inv s" by (simp_all add: run_inv_def)
  from settle(3) have ph: "phase_of s n = Some (Started c)" by simp
  have nq: "(n, w) \<notin> set (rs_queue s)" for w
    using node_invD(7)[OF ni, of w] ph by simp
  have na: "(n, w) \<notin> set (rs_applied s)" for w
    using node_invD(8)[OF ni, of w] node_invD(6)[OF ni ph] ph by auto
  from nq na have "n \<notin> fst ` set (rs_queue s)" "n \<notin> fst ` set (rs_applied s)" by auto
  with g show ?thesis unfolding global_inv_def settle(6)
    by (cases out) simp_all
next
  case (applied n v rest)
  from assms(2) have g: "global_inv s" by (simp add: run_inv_def)
  with applied(3) show ?thesis unfolding global_inv_def applied(4) by auto
next
  case (commit_hook n ph node)
  from assms(2) have g: "global_inv s" by (simp add: run_inv_def)
  then show ?thesis unfolding global_inv_def commit_hook(7) by simp
next
  case (commit_nohook n ph node)
  from assms(2) have g: "global_inv s" by (simp add: run_inv_def)
  then show ?thesis unfolding global_inv_def commit_nohook(7) by simp
next
  case (finalize n)
  from assms(2) have g: "global_inv s" by (simp add: run_inv_def)
  then show ?thesis unfolding global_inv_def finalize(4) by simp
qed

lemma run_inv_step: "step r e s = Some s' \<Longrightarrow> run_inv s \<Longrightarrow> run_inv s'"
  using node_inv_step global_inv_step by (simp add: run_inv_def)

lemma run_inv_reaches: "reaches r f es s \<Longrightarrow> run_inv s"
  by (induction rule: reaches_induct) (auto intro: run_inv_start run_inv_step)

lemma snapshot_le_refl [simp]: "snapshot_le c c"
  by (simp add: snapshot_le_def)

lemma snapshot_le_trans: "snapshot_le a b \<Longrightarrow> snapshot_le b c \<Longrightarrow> snapshot_le a c"
  by (simp add: snapshot_le_def)

lemma snapshot_le_set_key:
  "n \<notin> fst ` set c \<Longrightarrow> snapshot_le c (set_key c n v)"
  by (auto simp: snapshot_le_def dest: map_of_keys)

lemma fresh_initial: "fresh f \<Longrightarrow> ''initial'' \<notin> fst ` set (fl_nodes f)"
  by (simp add: fresh_def)

lemma keys_spread: "fst ` set (spread c upd) = fst ` set c \<union> fst ` set upd"
  by (induction c upd rule: spread.induct) auto

lemma reset_keys [simp]: "fst ` set (reset v) = {''initial''}"
  by (simp add: reset_def)

lemma start_context_keys: "fresh f \<Longrightarrow> fst ` set (rs_context (start r f)) = {''initial''}"
  by (simp add: start_def seed_context_def fresh_def idle_def
      split: sum.splits option.splits js.splits if_splits)

lemma nodes_keys_step:
  assumes "step r e s = Some s'"
  shows "map fst (rs_nodes s') = map fst (rs_nodes s)"
  using assms by (cases rule: step_cases) auto

lemma nodes_keys: "reaches r f es s \<Longrightarrow> map fst (rs_nodes s) = map fst (fl_nodes f)"
  by (induction rule: reaches_induct) (simp_all add: nodes_keys_step)

lemma nodes_keys_set: "reaches r f es s \<Longrightarrow> fst ` set (rs_nodes s) = fst ` set (fl_nodes f)"
  using nodes_keys[of r f es s] by (metis list.set_map)

lemma context_applied_step:
  assumes "step r e s = Some s'" "rs_context s = spread c0 (rs_applied s)"
  shows "rs_context s' = spread c0 (rs_applied s')"
  using assms by (cases rule: step_cases) (auto simp: spread_append)

lemma context_applied:
  "reaches r f es s \<Longrightarrow> rs_context s = spread (rs_context (start r f)) (rs_applied s)"
  by (induction rule: reaches_induct) (simp_all add: context_applied_step)

lemma context_keys:
  "reaches r f es s \<Longrightarrow> fresh f \<Longrightarrow>
   fst ` set (rs_context s) = {''initial''} \<union> fst ` set (rs_applied s)"
  using context_applied[of r f es s] by (simp add: keys_spread start_context_keys)

lemma applied_fresh:
  assumes "reaches r f es s" "fresh f" "rs_queue s = (n, v) # rest"
  shows "n \<notin> fst ` set (rs_context s)"
proof -
  have inv: "run_inv s" using assms(1) by (rule run_inv_reaches)
  then have ni: "node_inv s n" and g: "global_inv s" by (simp_all add: run_inv_def)
  from node_invD(7)[OF ni, of v] assms(3) have ph: "phase_of s n = Some (Updating v)" by simp
  from node_invD(3)[OF ni ph] nodes_keys_set[OF assms(1)] have "n \<in> fst ` set (fl_nodes f)" by simp
  with fresh_initial[OF assms(2)] have "n \<noteq> ''initial''" by blast
  moreover from g assms(3) have "n \<notin> fst ` set (rs_applied s)"
    by (auto simp: global_inv_def)
  ultimately show ?thesis using context_keys[OF assms(1,2)] by simp
qed

lemma step_context_mono:
  assumes "reaches r f es s" "fresh f" "step r e s = Some s'"
  shows "snapshot_le (rs_context s) (rs_context s')"
  using assms(3)
proof (cases rule: step_cases)
  case (applied n v rest)
  from applied_fresh[OF assms(1,2) applied(3)] show ?thesis
    unfolding applied(4) by (simp add: snapshot_le_set_key)
qed auto

lemma reaches_step: "reaches r f es s \<Longrightarrow> step r e s = Some s' \<Longrightarrow> reaches r f (es @ [e]) s'"
  by (auto simp: reaches_snoc)

lemma exec_context_mono:
  assumes "fresh f"
  shows "reaches r f es1 s1 \<Longrightarrow> exec r es2 s1 = Some s \<Longrightarrow> snapshot_le (rs_context s1) (rs_context s)"
proof (induction es2 arbitrary: es1 s1)
  case Nil
  then show ?case by simp
next
  case (Cons e es2)
  from Cons.prems(2) obtain s2 where st: "step r e s1 = Some s2" and ex: "exec r es2 s2 = Some s"
    by (auto split: option.splits)
  from step_context_mono[OF Cons.prems(1) assms st]
    Cons.IH[OF reaches_step[OF Cons.prems(1) st] ex]
  show ?case by (rule snapshot_le_trans)
qed

lemma events_inv_same:
  assumes "events_inv c0 s" "rs_events s' = rs_events s" "rs_applied s' = rs_applied s"
    "rs_context s' = rs_context s"
  shows "events_inv c0 s'"
  using assms by (simp add: events_inv_def)

lemma events_inv_snoc:
  assumes "events_inv c0 s" "rs_events s' = rs_events s @ [ev]" "rs_applied s' = rs_applied s"
    "rs_context s' = rs_context s" "ev_context ev = rs_context s"
    "rs_context s = spread c0 (rs_applied s)"
  shows "events_inv c0 s'"
proof -
  have a: "snapshot_le (ev_context ((rs_events s @ [ev]) ! i)) (ev_context ((rs_events s @ [ev]) ! j))"
    if "i \<le> j" "j < length (rs_events s @ [ev])" for i j
  proof (cases "j < length (rs_events s)")
    case True
    with that assms(1) show ?thesis by (simp add: events_inv_def nth_append)
  next
    case False
    with that have j: "j = length (rs_events s)" by simp
    show ?thesis
    proof (cases "i < length (rs_events s)")
      case True
      then have "rs_events s ! i \<in> set (rs_events s)" by simp
      with assms(1) have "snapshot_le (ev_context (rs_events s ! i)) (rs_context s)"
        by (simp add: events_inv_def)
      with True j assms(5) show ?thesis by (simp add: nth_append)
    next
      case False
      with that j have "i = j" by simp
      then show ?thesis by simp
    qed
  qed
  have b: "\<forall>e \<in> set (rs_events s @ [ev]). snapshot_le (ev_context e) (rs_context s)"
    using assms(1,5) by (auto simp: events_inv_def)
  have c: "\<forall>e \<in> set (rs_events s @ [ev]). \<exists>k \<le> length (rs_applied s).
          ev_context e = spread c0 (take k (rs_applied s))"
  proof
    fix e assume "e \<in> set (rs_events s @ [ev])"
    then consider "e \<in> set (rs_events s)" | "e = ev" by auto
    then show "\<exists>k \<le> length (rs_applied s). ev_context e = spread c0 (take k (rs_applied s))"
    proof cases
      case 1
      with assms(1) show ?thesis by (simp add: events_inv_def)
    next
      case 2
      with assms(5,6) show ?thesis by (intro exI[of _ "length (rs_applied s)"]) simp
    qed
  qed
  from a b c show ?thesis unfolding events_inv_def assms(2,3,4) by blast
qed

lemma events_inv_apply:
  assumes "events_inv c0 s" "rs_events s' = rs_events s" "rs_applied s' = rs_applied s @ [x]"
    "snapshot_le (rs_context s) (rs_context s')"
  shows "events_inv c0 s'"
proof -
  have b: "\<forall>e \<in> set (rs_events s). snapshot_le (ev_context e) (rs_context s')"
    using assms(1,4) by (auto simp: events_inv_def intro: snapshot_le_trans)
  have c: "\<forall>e \<in> set (rs_events s). \<exists>k \<le> length (rs_applied s @ [x]).
          ev_context e = spread c0 (take k (rs_applied s @ [x]))"
  proof
    fix e assume "e \<in> set (rs_events s)"
    with assms(1) obtain k where "k \<le> length (rs_applied s)"
      "ev_context e = spread c0 (take k (rs_applied s))"
      by (auto simp: events_inv_def)
    then show "\<exists>k \<le> length (rs_applied s @ [x]). ev_context e = spread c0 (take k (rs_applied s @ [x]))"
      by (intro exI[of _ k]) simp
  qed
  from assms(1) b c show ?thesis unfolding events_inv_def assms(2,3) by blast
qed

lemma events_inv_step:
  assumes "reaches r f es s" "fresh f" "step r e s = Some s'"
    "events_inv (rs_context (start r f)) s"
  shows "events_inv (rs_context (start r f)) s'"
  using assms(3)
proof (cases rule: step_cases)
  case launch
  show ?thesis by (rule events_inv_same[OF assms(4)]) (simp_all add: launch(6))
next
  case (missing i)
  show ?thesis by (rule events_inv_same[OF assms(4)]) (simp_all add: missing(3))
next
  case exit
  show ?thesis by (rule events_inv_same[OF assms(4)]) (use exit(4) in auto)
next
  case (settle n c node node' effs out)
  show ?thesis by (rule events_inv_same[OF assms(4)]) (simp_all add: settle(6))
next
  case (applied n v rest)
  show ?thesis
    by (rule events_inv_apply[OF assms(4) _ _ step_context_mono[OF assms(1,2,3)]])
       (simp_all add: applied(4))
next
  case (commit_hook n ph node)
  show ?thesis
    by (rule events_inv_snoc[OF assms(4) _ _ _ _ context_applied[OF assms(1)],
          of _ "commit_event s n ph"])
       (simp_all add: commit_hook(7))
next
  case (commit_nohook n ph node)
  show ?thesis by (rule events_inv_same[OF assms(4)]) (simp_all add: commit_nohook(7))
next
  case (finalize n)
  show ?thesis by (rule events_inv_same[OF assms(4)]) (simp_all add: finalize(4))
qed

lemma events_inv_reaches:
  assumes "fresh f" "reaches r f es s"
  shows "events_inv (rs_context (start r f)) s"
  using assms(2)
proof (induction rule: reaches_induct)
  case start
  show ?case by (simp add: events_inv_def)
next
  case (step es e s s')
  from events_inv_step[OF step(1) assms(1) step(2) step(3)] show ?case .
qed

text \<open>
  C4, as amended. Take a call of \<open>trigger\<close> that is made when no other call on the same
  runner is in progress (the context is \<open>{initial: undefined}\<close>), that no other call
  overlaps, on a runner none of whose nodes has the id \<open>initial\<close>. The context
  snapshots that successive node completion hooks receive in it never shrink: a key of
  an earlier snapshot has the same value in every later one. The context itself never
  loses a key or changes a value from one state of the run to a later one. Every
  snapshot that a hook sees is the seeded context merged with a whole prefix of the list
  of the updates applied so far, so an update is visible entirely or not at all, and the
  current context is the seeded context merged with all of them.
\<close>

theorem context_snapshots_monotone:
  assumes "fl_context f = reset VUndefined" and "''initial'' \<notin> fst ` set (fl_nodes f)"
    and "reaches r f es s"
  shows "(\<forall>i j. i \<le> j \<and> j < length (rs_events s) \<longrightarrow>
            snapshot_le (ev_context (rs_events s ! i)) (ev_context (rs_events s ! j))) \<and>
         (\<forall>es1 es2 s1. es = es1 @ es2 \<and> reaches r f es1 s1 \<longrightarrow>
            snapshot_le (rs_context s1) (rs_context s)) \<and>
         (\<forall>ev \<in> set (rs_events s). \<exists>k \<le> length (rs_applied s).
            ev_context ev = spread (rs_context (start r f)) (take k (rs_applied s))) \<and>
         rs_context s = spread (rs_context (start r f)) (rs_applied s)"
proof -
  from assms(1,2) have fr: "fresh f" by (simp add: fresh_def)
  have "snapshot_le (rs_context s1) (rs_context s)"
    if "es = es1 @ es2" "reaches r f es1 s1" for es1 es2 s1
  proof -
    from assms(3) that have "exec r es2 s1 = Some s"
      by (simp add: reaches_def exec_append)
    from exec_context_mono[OF fr that(2) this] show ?thesis .
  qed
  with events_inv_reaches[OF fr assms(3)] context_applied[OF assms(3)] show ?thesis
    unfolding events_inv_def by blast
qed

section \<open>Runs of the examples\<close>

lemma double_succ_pos [simp]: "0 < double_succ x"
  by (simp add: double_succ_def)

lemma run_first_ok:
  "isEnabled n (Some c) False = Inr True \<Longrightarrow> execute (options n) 0 c = Inr v \<Longrightarrow>
   run n c = Some (n\<lparr>status := Completed\<rparr>, [CallExecute 0], Inr v)"
  by (simp add: run_def) (subst run_loop.simps, simp)

lemma run_fail0:
  "isEnabled n (Some c) False = Inr True \<Longrightarrow>
   retries_of (maxRetries (node_retryPolicy n)) = 0 \<Longrightarrow> execute (options n) 0 c = Inl e \<Longrightarrow>
   run n c = Some (last_attempt_failed n c 0 e)"
  by (simp add: run_def) (subst run_loop.simps, simp)

lemma run_disabled:
  "isEnabled n (Some c) False = Inr False \<Longrightarrow> run n c = Some (n\<lparr>status := Skipped\<rparr>, [], Inr VNull)"
  by (simp add: run_def)

lemmas eval_defs =
  start_def seed_context_def reset_def new_Set_def set_add_def dm_get_def isEnabled_property_def
  step_def finished_def main_step_def settle_def apply_next_def apply_update_def commit_def
  finalize_def after_hook_def finally_block_def promise_settled_def exit_run_def canRun_def
  put_node_def del_key_def isEnabled_def node_id_def run_begin_def new_fields_def
  plain_options_def plain_node_def default_policy_def handler_effects_def error_of_def
  last_attempt_failed_def handler_unprintable_def Let_def

lemmas sys_eval_defs =
  sys_step_def new_system_def first_turn_def fields_of_def with_fields_def queue_after_def

lemma reaches_run_events:
  "exec r es (start r f) \<noteq> None \<Longrightarrow> reaches r f es (run_events r f es)"
  by (auto simp: reaches_def run_events_def)

lemma hooked_run:
  "exec runner_hooked hooked_events (start runner_hooked (new_fields runner_hooked)) \<noteq> None \<and>
   map ev_context (rs_events (run_events runner_hooked (new_fields runner_hooked) hooked_events)) =
         [[(''initial'', VNum (Finite 100)), (''node1'', VNum (Finite 101))],
          [(''initial'', VNum (Finite 100)), (''node1'', VNum (Finite 101)),
           (''node2'', VNum (Finite 102))]] \<and>
   rs_main (run_events runner_hooked (new_fields runner_hooked) hooked_events) =
     Returned [(''initial'', VNum (Finite 100)), (''node1'', VNum (Finite 101)),
           (''node2'', VNum (Finite 102))]"
  by (simp add: run_events_def runner_hooked_def hooked_events_def hooked_node_def eval_defs
      run_first_ok)

theorem context_snapshots_monotone_witness:
  "fl_context (new_fields runner_hooked) = reset VUndefined \<and>
   ''initial'' \<notin> fst ` set (fl_nodes (new_fields runner_hooked)) \<and>
   reaches runner_hooked (new_fields runner_hooked) hooked_events
     (run_events runner_hooked (new_fields runner_hooked) hooked_events) \<and>
   map ev_context (rs_events (run_events runner_hooked (new_fields runner_hooked) hooked_events)) =
     [[(''initial'', VNum (Finite 100)), (''node1'', VNum (Finite 101))],
      [(''initial'', VNum (Finite 100)), (''node1'', VNum (Finite 101)),
       (''node2'', VNum (Finite 102))]] \<and>
   snapshot_le
     (ev_context (rs_events (run_events runner_hooked (new_fields runner_hooked) hooked_events) ! 0))
     (ev_context (rs_events (run_events runner_hooked (new_fields runner_hooked) hooked_events) ! 1))"
proof -
  let ?f = "new_fields runner_hooked"
  let ?s = "run_events runner_hooked ?f hooked_events"
  have c: "fl_context ?f = reset VUndefined"
    by (simp add: new_fields_def)
  have i: "''initial'' \<notin> fst ` set (fl_nodes ?f)"
    by (simp add: new_fields_def runner_hooked_def)
  from hooked_run have
    ex: "exec runner_hooked hooked_events (start runner_hooked ?f) \<noteq> None" and
    evs: "map ev_context (rs_events ?s) =
         [[(''initial'', VNum (Finite 100)), (''node1'', VNum (Finite 101))],
          [(''initial'', VNum (Finite 100)), (''node1'', VNum (Finite 101)),
           (''node2'', VNum (Finite 102))]]"
    by simp_all
  from ex have r: "reaches runner_hooked ?f hooked_events ?s"
    by (rule reaches_run_events)
  have "length (map ev_context (rs_events ?s)) = 2"
    unfolding evs by simp
  then have len: "length (rs_events ?s) = 2"
    by simp
  from context_snapshots_monotone[OF c i r] len
  have "snapshot_le (ev_context (rs_events ?s ! 0)) (ev_context (rs_events ?s ! 1))"
    by simp
  with c i r evs show ?thesis by simp
qed

lemma overlap_run:
  "sys_exec runner_overlap overlap_events (new_system runner_overlap) \<noteq> None \<and>
   map ev_context (rs_events (sys_calls (sys_events runner_overlap overlap_events) ! 1)) =
     [[(''initial'', VUndefined), (''node1'', VNum (Finite 101))],
      [(''initial'', VUndefined), (''node2'', VNum (Finite 102))]]"
  by (simp add: sys_events_def runner_overlap_def runner_hooked_def overlap_events_def
      hooked_node_def eval_defs sys_eval_defs run_first_ok)

text \<open>
  C4 as stated is about every run of \<open>trigger\<close>. The context is a field of the runner,
  which every call writes and the \<open>finally\<close> block of every \<open>trigger\<close> resets. When two
  calls overlap as in \<open>overlap_events\<close>, the completion hooks of the second call see
  first a snapshot with the key \<open>node1\<close> and then one without it.
\<close>

theorem overlapping_triggers_counterexample:
  "fl_context (new_fields runner_overlap) = reset VUndefined \<and>
   ''initial'' \<notin> fst ` set (fl_nodes (new_fields runner_overlap)) \<and>
   sys_exec runner_overlap overlap_events (new_system runner_overlap) \<noteq> None \<and>
   map ev_context (rs_events (sys_calls (sys_events runner_overlap overlap_events) ! 1)) =
     [[(''initial'', VUndefined), (''node1'', VNum (Finite 101))],
      [(''initial'', VUndefined), (''node2'', VNum (Finite 102))]] \<and>
   \<not> snapshot_le [(''initial'', VUndefined), (''node1'', VNum (Finite 101))]
                  [(''initial'', VUndefined), (''node2'', VNum (Finite 102))]"
proof -
  have "\<not> snapshot_le [(''initial'', VUndefined), (''node1'', VNum (Finite 101))]
                  [(''initial'', VUndefined), (''node2'', VNum (Finite 102))]"
    unfolding snapshot_le_def
    by (auto intro!: exI[of _ "''node1''"])
  with overlap_run show ?thesis
    by (simp add: new_fields_def runner_overlap_def runner_hooked_def)
qed

section \<open>The start of a node and the rest of its run\<close>

lemma isEnabled_status [simp]: "isEnabled (n\<lparr>status := st\<rparr>) co b = isEnabled n co b"
  by (simp add: isEnabled_def split: enabled_option.splits option.splits)

lemma run_loop_status0: "run_loop (n\<lparr>status := st\<rparr>) c 0 0 = run_loop n c 0 0"
  by (subst (1 2) run_loop.simps) (simp split: sum.splits)

lemma run_run_begin: "run (run_begin n c) c = run n c"
  by (cases "isEnabled n (Some c) False")
     (auto simp: run_def run_begin_def run_loop_status0 split: bool.splits)

section \<open>The seed of the context\<close>










text \<open>The runner with the factory is what the builder makes, and the builder keeps the seed.\<close>

lemma zero_factory_built:
  "build (Val VUndefined) wf_zero_factory = Inr runner_zero_factory"
  by (simp add: wf_zero_factory_def new_Workflow_def empty_Workflow_def addNode_def
      new_Node_def has_node_def listed_dependencies_def plain_options_def build_def size_of_def
      topologicalSort_def visit.simps dm_get_def runner_zero_factory_def seed_node_def
      plain_node_def)

lemma add_dependencies_seed [simp]:
  "contextValueOrFactory (snd (add_dependencies i ds w)) = contextValueOrFactory w"
  by (induction i ds w rule: add_dependencies.induct) (auto split: jsval.splits)

lemma addNode_seed: "contextValueOrFactory (snd (addNode opts w)) = contextValueOrFactory w"
proof (cases "add_dependencies (opt_id opts) (listed_dependencies opts) w")
  case (Pair e w')
  with add_dependencies_seed[of "opt_id opts" "listed_dependencies opts" w]
  have "contextValueOrFactory w' = contextValueOrFactory w" by simp
  with Pair show ?thesis
    by (auto simp: addNode_def split: sum.splits option.splits)
qed

lemma build_seed: "build h w = Inr r \<Longrightarrow> r_contextValueOrFactory r = contextValueOrFactory w"
  by (auto simp: build_def split: if_splits sum.splits dest: topologicalSort_success)

lemma new_Workflow_falsy_value:
  "v \<noteq> VUndefined \<Longrightarrow>
   new_Workflow (Some \<lparr>contextValue = Some (Val v), contextFactory = None\<rparr>) =
     Inr (empty_Workflow\<lparr>contextValueOrFactory := Val v\<rparr>)"
  by (simp add: new_Workflow_def)

section \<open>A disabled node\<close>

text \<open>
  C1. A node built with \<open>enabled: false\<close> is to leave no key in the final context. The
  scheduler tests \<^verbatim>\<open>node.isEnabled\<close>, the method itself, which is truthy for every node,
  so it starts the disabled node like any other. \<open>run\<close> then finds the node disabled:
  it does not call the work function, sets the status to \<open>skipped\<close> and returns \<open>null\<close>,
  and the scheduler stores that \<open>null\<close> in the context. For a runner whose only node is
  disabled, \<open>trigger\<close> returns \<open>{initial: undefined, id: null}\<close>, where the claim, the
  README and the repository's test \<open>disabled node is skipped\<close> have \<open>{initial: undefined}\<close>.
\<close>

theorem disabled_node_key:
  assumes "enabled (options n) = EnabledBool False" and "onCompleted (options n) = None"
    and "i \<noteq> ''initial''"
  shows "isEnabled_property n \<and>
    run n [(''initial'', VUndefined)] = Some (n\<lparr>status := Skipped\<rparr>, [], Inr VNull) \<and>
    exec (single_runner i n) (single_run i)
      (start (single_runner i n) (new_fields (single_runner i n))) \<noteq> None \<and>
    rs_runs (run_events (single_runner i n) (new_fields (single_runner i n)) (single_run i)) =
      [(i, [(''initial'', VUndefined)], [], Inr VNull)] \<and>
    rs_main (run_events (single_runner i n) (new_fields (single_runner i n)) (single_run i)) =
      Returned [(''initial'', VUndefined), (i, VNull)]"
proof -
  have en: "isEnabled n (Some c) False = Inr False" for c
    using assms(1) by (simp add: isEnabled_def)
  have en': "isEnabled (n\<lparr>status := Skipped\<rparr>) (Some c) False = Inr False" for c
    using assms(1) by (simp add: isEnabled_def)
  have r: "run n c = Some (n\<lparr>status := Skipped\<rparr>, [], Inr VNull)" for c
    using en by (rule run_disabled)
  have r': "run (n\<lparr>status := Skipped\<rparr>) c = Some (n\<lparr>status := Skipped\<rparr>, [], Inr VNull)" for c
    using run_disabled[OF en'] by simp
  have i: "''initial'' \<noteq> i" using assms(3) by auto
  show ?thesis
    using assms(2,3) i
    by (simp add: r r' en single_runner_def single_run_def run_events_def
        start_def seed_context_def reset_def new_Set_def set_add_def dm_get_def
        isEnabled_property_def step_def finished_def main_step_def settle_def apply_next_def
        apply_update_def commit_def finalize_def after_hook_def finally_block_def
        promise_settled_def exit_run_def canRun_def put_node_def del_key_def run_begin_def
        new_fields_def Let_def)
qed

lemma disabled_built:
  "build (Val VUndefined) wf_disabled = Inr (single_runner ''node1'' disabled_node)"
  by (simp add: wf_disabled_def disabled_options_def empty_Workflow_def addNode_def
      new_Node_def has_node_def listed_dependencies_def plain_options_def build_def size_of_def
      topologicalSort_def visit.simps dm_get_def single_runner_def disabled_node_def)

theorem disabled_node_key_witness:
  "build (Val VUndefined) wf_disabled = Inr (single_runner ''node1'' disabled_node) \<and>
   enabled (options disabled_node) = EnabledBool False \<and>
   rs_runs (run_events (single_runner ''node1'' disabled_node)
       (new_fields (single_runner ''node1'' disabled_node)) (single_run ''node1'')) =
     [(''node1'', [(''initial'', VUndefined)], [], Inr VNull)] \<and>
   rs_main (run_events (single_runner ''node1'' disabled_node)
       (new_fields (single_runner ''node1'' disabled_node)) (single_run ''node1'')) =
     Returned [(''initial'', VUndefined), (''node1'', VNull)]"
proof -
  have a: "enabled (options disabled_node) = EnabledBool False"
    "onCompleted (options disabled_node) = None"
    by (simp_all add: disabled_node_def disabled_options_def plain_options_def)
  have i: "''node1'' \<noteq> ''initial''" by simp
  from disabled_node_key[OF a i] disabled_built a(1) show ?thesis by simp
qed

end
